theory Spec2Isabelle
  imports Main "HOL-Library.Word" "HOL-Library.Monad_Syntax"
begin

section \<open>JavaScript strings\<close>

text \<open>
  The function verified here is \<open>fallbackBreakdown\<close>, the rule-based decomposition of a
  prompt into tasks (lines 138 to 295 of the route \<open>api.task-breakdown\<close>, the second
  unnamed source file). It works on strings only: string methods and regular expressions.

  A JavaScript string is a sequence of UTF-16 code units. The string literals of this
  theory are ASCII and are written through \<open>js\<close>.
\<close>

type_synonym code_unit = "16 word"
type_synonym jsstring = "code_unit list"

definition js :: "string \<Rightarrow> jsstring" where
  "js s = map of_char s"

text \<open>
  ECMAScript's LineTerminator code points, and the code points that \<open>trim\<close> strips and
  the class \<open>\s\<close> matches (WhiteSpace together with LineTerminator).
\<close>

definition isLineTerminator :: "code_unit \<Rightarrow> bool" where
  "isLineTerminator c \<longleftrightarrow> c = 0x0A \<or> c = 0x0D \<or> c = 0x2028 \<or> c = 0x2029"

definition isWhiteSpace :: "code_unit \<Rightarrow> bool" where
  "isWhiteSpace c \<longleftrightarrow>
     c = 0x09 \<or> c = 0x0B \<or> c = 0x0C \<or> c = 0x20 \<or> c = 0xA0 \<or> c = 0x1680
     \<or> (0x2000 \<le> c \<and> c \<le> 0x200A) \<or> c = 0x202F \<or> c = 0x205F \<or> c = 0x3000
     \<or> c = 0xFEFF \<or> isLineTerminator c"

definition isDigit :: "code_unit \<Rightarrow> bool" where
  "isDigit c \<longleftrightarrow> 0x30 \<le> c \<and> c \<le> 0x39"

definition trim :: "jsstring \<Rightarrow> jsstring" where
  "trim s = rev (dropWhile isWhiteSpace (rev (dropWhile isWhiteSpace s)))"

text \<open>\<open>s.substring(a, b)\<close>: both ends clamped to the length, and swapped when out of order.\<close>

definition substring :: "jsstring \<Rightarrow> nat \<Rightarrow> nat \<Rightarrow> jsstring" where
  "substring s a b =
     (let a' = min a (length s); b' = min b (length s)
      in take (max a' b' - min a' b') (drop (min a' b') s))"

text \<open>\<open>s.indexOf(c, from)\<close> for a one-character needle; \<open>None\<close> stands for \<open>-1\<close>.\<close>

fun indexOf :: "jsstring \<Rightarrow> code_unit \<Rightarrow> nat \<Rightarrow> nat option" where
  "indexOf [] c from = None"
| "indexOf (x # xs) c 0 = (if x = c then Some 0 else map_option Suc (indexOf xs c 0))"
| "indexOf (x # xs) c (Suc n) = map_option Suc (indexOf xs c n)"

text \<open>\<open>xs.join(' ')\<close>.\<close>

fun join :: "jsstring list \<Rightarrow> jsstring" where
  "join [] = []"
| "join [w] = w"
| "join (w # v # rest) = w @ 0x20 # join (v # rest)"

text \<open>\<open>xs.slice(a, b)\<close> for \<open>0 \<le> a \<le> b\<close>.\<close>

definition slice :: "'a list \<Rightarrow> nat \<Rightarrow> nat \<Rightarrow> 'a list" where
  "slice xs a b = take (b - a) (drop a xs)"

text \<open>
  \<open>c.toUpperCase()\<close> of a one-unit string. On ASCII it is computed; from \<open>0x80\<close> on the
  result is read from the runtime's Unicode case table \<open>tbl\<close>, which is a parameter.
\<close>

definition asciiUpper :: "code_unit \<Rightarrow> code_unit" where
  "asciiUpper c = (if 0x61 \<le> c \<and> c \<le> 0x7A then c - 0x20 else c)"

definition toUpperCase :: "(code_unit \<Rightarrow> jsstring) \<Rightarrow> code_unit \<Rightarrow> jsstring" where
  "toUpperCase tbl c = (if c < 0x80 then [asciiUpper c] else tbl c)"

section \<open>Regular expressions\<close>

text \<open>
  The constructs the source's patterns use. \<open>Chr P\<close> is a one-unit class, \<open>Star\<close> and
  \<open>Opt\<close> are the greedy \<open>*\<close> and \<open>?\<close>, \<open>Group\<close> is the capturing group (no pattern of
  the source has more than one, and none has it under a repetition) and \<open>Behind P\<close> is
  the lookbehind \<open>(?<=c)\<close> for a one-unit class.
\<close>

datatype 'a re =
    Eps
  | Chr "'a \<Rightarrow> bool"
  | Seq "'a re" "'a re"
  | Alt "'a re" "'a re"
  | Star "'a re"
  | Opt "'a re"
  | Group "'a re"
  | Behind "'a \<Rightarrow> bool"

definition Plus :: "'a re \<Rightarrow> 'a re" where
  "Plus a = Seq a (Star a)"

text \<open>
  A matcher state is the input read so far (reversed), the input still to read, and the
  text of the capturing group. \<open>matcher r st\<close> lists, in the backtracking order of ECMAScript
  (first alternative first, longest repetition first), the states in which a match of
  \<open>r\<close> started in \<open>st\<close> can end. An iteration of \<open>*\<close> or \<open>?\<close> that reads nothing is
  rejected, as RepeatMatcher does.
\<close>

type_synonym 'a mstate = "'a list \<times> 'a list \<times> 'a list option"

function matcher :: "'a re \<Rightarrow> 'a mstate \<Rightarrow> 'a mstate list" where
  "matcher Eps st = [st]"
| "matcher (Chr P) (pre, suf, cap) =
     (case suf of [] \<Rightarrow> [] | x # xs \<Rightarrow> if P x then [(x # pre, xs, cap)] else [])"
| "matcher (Seq a b) st = concat (map (matcher b) (matcher a st))"
| "matcher (Alt a b) st = matcher a st @ matcher b st"
| "matcher (Star a) (pre, suf, cap) =
     concat (map (\<lambda>(pre', suf', cap').
                    if length suf' < length suf then matcher (Star a) (pre', suf', cap') else [])
                 (matcher a (pre, suf, cap)))
     @ [(pre, suf, cap)]"
| "matcher (Opt a) (pre, suf, cap) =
     filter (\<lambda>(pre', suf', cap'). length suf' < length suf) (matcher a (pre, suf, cap))
     @ [(pre, suf, cap)]"
| "matcher (Group a) (pre, suf, cap) =
     map (\<lambda>(pre', suf', cap'). (pre', suf', Some (take (length suf - length suf') suf)))
         (matcher a (pre, suf, cap))"
| "matcher (Behind P) (pre, suf, cap) =
     (case pre of [] \<Rightarrow> [] | x # xs \<Rightarrow> if P x then [(pre, suf, cap)] else [])"
  by pat_completeness auto
termination
  by (relation "inv_image (less_than <*lex*> less_than)
                  (\<lambda>(r, pre, suf, cap). (size r, length suf))") auto

text \<open>The match object: \<open>match.index\<close>, \<open>match[0]\<close> and \<open>match[1]\<close>.\<close>

record rmatch =
  index :: nat
  text0 :: jsstring
  group1 :: "jsstring option"

text \<open>
  RegExpBuiltinExec: the first position from the current one at which the pattern
  matches, with the first match in backtracking order there. The result carries the
  state after the match, whose prefix length is the new \<open>lastIndex\<close>.
\<close>

fun search :: "code_unit re \<Rightarrow> jsstring \<Rightarrow> jsstring \<Rightarrow> (rmatch \<times> jsstring \<times> jsstring) option" where
  "search r pre [] =
     (case matcher r (pre, [], None) of
        [] \<Rightarrow> None
      | (pre', suf', cap) # _ \<Rightarrow>
          Some (\<lparr>index = length pre, text0 = [], group1 = cap\<rparr>, pre', suf'))"
| "search r pre (x # xs) =
     (case matcher r (pre, x # xs, None) of
        [] \<Rightarrow> search r (x # pre) xs
      | (pre', suf', cap) # _ \<Rightarrow>
          Some (\<lparr>index = length pre,
                 text0 = take (length (x # xs) - length suf') (x # xs),
                 group1 = cap\<rparr>, pre', suf'))"

text \<open>\<open>s.match(r)\<close> for a pattern without the \<open>g\<close> flag.\<close>

definition re_match :: "code_unit re \<Rightarrow> jsstring \<Rightarrow> rmatch option" where
  "re_match r s = map_option fst (search r [] s)"

text \<open>
  The loop \<open>while ((x = r.exec(s)) !== null) { ... }\<close> for a pattern with the \<open>g\<close> flag:
  the matches in order, each search starting at the \<open>lastIndex\<close> the previous match left.
  A match that leaves \<open>lastIndex\<close> where it was is found again for ever: the loop does not
  return, which is \<open>None\<close>.
\<close>

function exec_all :: "code_unit re \<Rightarrow> jsstring \<Rightarrow> jsstring \<Rightarrow> rmatch list option" where
  "exec_all r pre suf =
     (case search r pre suf of
        None \<Rightarrow> Some []
      | Some (mt, pre', suf') \<Rightarrow>
          if length suf' < length suf
          then map_option ((#) mt) (exec_all r pre' suf')
          else None)"
  by pat_completeness auto
termination
  by (relation "measure (\<lambda>(r, pre, suf). length suf)") auto

text \<open>
  \<open>s.split(r)\<close> (RegExp.prototype[Symbol.split], no limit, no capturing group): \<open>cur\<close> is
  the reversed text between the positions \<open>p\<close> and \<open>q\<close> of the algorithm.
\<close>

function split_loop :: "code_unit re \<Rightarrow> jsstring \<Rightarrow> jsstring \<Rightarrow> jsstring \<Rightarrow> jsstring list" where
  "split_loop r pre cur [] = [rev cur]"
| "split_loop r pre cur (x # xs) =
     (case matcher r (pre, x # xs, None) of
        [] \<Rightarrow> split_loop r (x # pre) (x # cur) xs
      | (pre', suf', cap) # _ \<Rightarrow>
          if length suf' < length (x # xs) then rev cur # split_loop r pre' [] suf'
          else if cur = [] then split_loop r (x # pre) (x # cur) xs
          else rev cur # split_loop r pre [] (x # xs))"
  by pat_completeness auto
termination
  by (relation "inv_image (less_than <*lex*> less_than)
                  (\<lambda>(r, pre, cur, suf). (length suf, length cur))") auto

definition split :: "code_unit re \<Rightarrow> jsstring \<Rightarrow> jsstring list" where
  "split r s = (if s = [] then (if matcher r ([], [], None) = [] then [s] else [])
                else split_loop r [] [] s)"

section \<open>The patterns of the source\<close>

definition lit :: "char \<Rightarrow> code_unit re" where
  "lit c = Chr (\<lambda>x. x = of_char c)"

text \<open>
  A literal under the \<open>i\<close> flag (without \<open>u\<close>): Canonicalize never maps a code unit from
  \<open>0x80\<close> on to an ASCII one, so an ASCII letter matches its two ASCII cases and nothing
  else, and any other ASCII character matches itself only.
\<close>

definition litI :: "char \<Rightarrow> code_unit re" where
  "litI c = Chr (\<lambda>x. asciiUpper x = asciiUpper (of_char c))"

fun wordI :: "string \<Rightarrow> code_unit re" where
  "wordI [] = Eps"
| "wordI [c] = litI c"
| "wordI (c # cs) = Seq (litI c) (wordI cs)"

fun alts :: "'a re list \<Rightarrow> 'a re" where
  "alts [] = Eps"
| "alts [a] = a"
| "alts (a # as) = Alt a (alts as)"

definition ws :: "code_unit re" where
  "ws = Chr isWhiteSpace"

definition digit :: "code_unit re" where
  "digit = Chr isDigit"

definition dot :: "code_unit re" where
  "dot = Chr (\<lambda>x. \<not> isLineTerminator x)"

text \<open>\<open>/\n+/\<close>\<close>

definition newlinesRegex :: "code_unit re" where
  "newlinesRegex = Plus (lit CHR 0x0A)"

text \<open>
  \<open>/\n\s*[-*...+~]\s*(.+)/g\<close>. Between \<open>*\<close> and \<open>+\<close> the class of the source file holds
  the three code units \<open>U+00E2\<close>, \<open>U+20AC\<close> and \<open>U+00A2\<close> (the bytes of a bullet
  \<open>U+2022\<close> read in another encoding). The proofs use only that every unit of the class
  is visible.
\<close>

definition isBullet :: "code_unit \<Rightarrow> bool" where
  "isBullet c \<longleftrightarrow> c = 0x2D \<or> c = 0x2A \<or> c = 0xE2 \<or> c = 0x20AC \<or> c = 0xA2 \<or> c = 0x2B \<or> c = 0x7E"

definition bulletPointRegex :: "code_unit re" where
  "bulletPointRegex =
     Seq (lit CHR 0x0A) (Seq (Star ws) (Seq (Chr isBullet) (Seq (Star ws) (Group (Plus dot)))))"

text \<open>\<open>/\n\s*(?:\d+[.)]|Step \d+:?)\s*(.+)/gi\<close>\<close>

definition numberedRegex :: "code_unit re" where
  "numberedRegex =
     Seq (lit CHR 0x0A) (Seq (Star ws)
       (Seq (Alt (Seq (Plus digit) (Alt (lit CHR ''.'') (lit CHR '')'')))
                 (Seq (wordI ''Step '') (Seq (Plus digit) (Opt (lit CHR '':'')))))
         (Seq (Star ws) (Group (Plus dot)))))"

text \<open>\<open>/(?:\.|\n)\s*(?:W1|W2)[,:]?\s+/i\<close>, for the words of one separator.\<close>

definition separatorRegex :: "string list \<Rightarrow> code_unit re" where
  "separatorRegex words =
     Seq (Alt (lit CHR ''.'') (lit CHR 0x0A)) (Seq (Star ws)
       (Seq (alts (map wordI words))
         (Seq (Opt (Alt (lit CHR '','') (lit CHR '':''))) (Plus ws))))"

definition taskSeparators :: "code_unit re list" where
  "taskSeparators =
     [separatorRegex [''First'', ''1st''],
      separatorRegex [''Second'', ''2nd''],
      separatorRegex [''Third'', ''3rd''],
      separatorRegex [''Fourth'', ''4th''],
      separatorRegex [''Fifth'', ''5th''],
      separatorRegex [''Sixth'', ''6th''],
      separatorRegex [''Seventh'', ''7th''],
      separatorRegex [''Eighth'', ''8th''],
      separatorRegex [''Ninth'', ''9th''],
      separatorRegex [''Tenth'', ''10th''],
      separatorRegex [''Next''],
      separatorRegex [''Then''],
      separatorRegex [''Finally''],
      separatorRegex [''Additionally''],
      separatorRegex [''Moreover''],
      separatorRegex [''Furthermore''],
      separatorRegex [''Also'']]"

text \<open>
  \<open>/(?:\.|\n)\s*(?:(?:(?:The|A|This|Your)\s+)?(?:task|step|part|phase|stage)\s+(?:is|will be)\s+to\s+|(?:You\s+(?:need|should|must|have to)\s+))/gi\<close>
\<close>

definition taskPhraseRegex :: "code_unit re" where
  "taskPhraseRegex =
     Seq (Alt (lit CHR ''.'') (lit CHR 0x0A)) (Seq (Star ws)
       (Alt
         (Seq (Opt (Seq (alts (map wordI [''The'', ''A'', ''This'', ''Your''])) (Plus ws)))
           (Seq (alts (map wordI [''task'', ''step'', ''part'', ''phase'', ''stage'']))
             (Seq (Plus ws)
               (Seq (alts (map wordI [''is'', ''will be'']))
                 (Seq (Plus ws) (Seq (wordI ''to'') (Plus ws)))))))
         (Seq (wordI ''You'')
           (Seq (Plus ws)
             (Seq (alts (map wordI [''need'', ''should'', ''must'', ''have to''])) (Plus ws))))))"

text \<open>\<open>/(?<=\.)\s+/\<close> and \<open>/\s+/\<close>\<close>

definition sentenceRegex :: "code_unit re" where
  "sentenceRegex = Seq (Behind (\<lambda>x. x = of_char CHR ''.'')) (Plus ws)"

definition spacesRegex :: "code_unit re" where
  "spacesRegex = Plus ws"

section \<open>The fallback decomposer\<close>

record TaskDescriptor =
  task :: jsstring
  subtasks :: "jsstring list option"

definition mkTask :: "jsstring \<Rightarrow> TaskDescriptor" where
  "mkTask t = \<lparr>task = t, subtasks = None\<rparr>"

text \<open>
  The descriptor \<open>{ task: string; subtasks?: string[] }\<close>; the fallback never sets
  \<open>subtasks\<close>.

  What one round of the bullet loop or of the numbered loop pushes (lines 162 to 166 and
  173 to 177): \<open>match[1]\<close> trimmed, when it is not blank.
\<close>

definition pushCapture :: "rmatch \<Rightarrow> jsstring list" where
  "pushCapture mt =
     (case group1 mt of
        None \<Rightarrow> []
      | Some g \<Rightarrow> if g \<noteq> [] \<and> length (trim g) > 0 then [trim g] else [])"

text \<open>
  One round of the loop over \<open>taskSeparators\<close> (lines 213 to 225), on the pair
  \<open>(tasks, remainingPrompt)\<close>.
\<close>

definition separatorStep :: "jsstring list \<times> jsstring \<Rightarrow> code_unit re \<Rightarrow> jsstring list \<times> jsstring" where
  "separatorStep st separator =
     (case st of (tasks, remainingPrompt) \<Rightarrow>
        (case re_match separator remainingPrompt of
           None \<Rightarrow> (tasks, remainingPrompt)
         | Some mt \<Rightarrow>
             (let beforeTask = trim (substring remainingPrompt 0 (index mt + 1))
              in (if beforeTask \<noteq> [] \<and> beforeTask \<notin> set tasks \<and> length beforeTask > 10
                  then tasks @ [beforeTask] else tasks,
                  drop (index mt + length (text0 mt)) remainingPrompt))))"

text \<open>One round of the loop over the matches of \<open>taskPhraseRegex\<close> (lines 233 to 245).\<close>

definition phraseStep :: "jsstring \<Rightarrow> jsstring list \<Rightarrow> rmatch \<Rightarrow> jsstring list" where
  "phraseStep taskPhrasePrompt tasks mt =
     (let start = index mt + length (text0 mt);
          taskPhrase = trim (case indexOf taskPhrasePrompt (of_char CHR ''.'') start of
                               Some endIndex \<Rightarrow> substring taskPhrasePrompt start (endIndex + 1)
                             | None \<Rightarrow> drop start taskPhrasePrompt)
      in if taskPhrase \<noteq> [] \<and> length taskPhrase > 10 \<and> taskPhrase \<notin> set tasks
         then tasks @ [taskPhrase] else tasks)"

text \<open>The remaining text as the last task (lines 247 to 250).\<close>

definition addRemaining :: "jsstring list \<Rightarrow> jsstring \<Rightarrow> jsstring list" where
  "addRemaining tasks remainingPrompt =
     (if trim remainingPrompt \<noteq> [] \<and> length remainingPrompt > 10
      then tasks @ [trim remainingPrompt] else tasks)"

text \<open>The sentence fallback (lines 253 to 258) and the chunk fallback (lines 261 to 274).\<close>

definition sentences :: "jsstring \<Rightarrow> jsstring list" where
  "sentences prompt =
     map trim (filter (\<lambda>sentence. length (trim sentence) > 15) (split sentenceRegex prompt))"

definition chunkSize :: "jsstring list \<Rightarrow> nat" where
  "chunkSize words = max 5 (length words div 3)"

function chunkLoop :: "jsstring list \<Rightarrow> nat \<Rightarrow> jsstring list" where
  "chunkLoop words i =
     (if i < length words
      then (let chunk = join (slice words i (i + chunkSize words))
            in (if length (trim chunk) > 0 then [chunk] else [])
               @ chunkLoop words (i + chunkSize words))
      else [])"
  by pat_completeness auto
termination
  by (relation "measure (\<lambda>(words, i). length words - i)") (auto simp: chunkSize_def)

definition chunks :: "jsstring \<Rightarrow> jsstring list" where
  "chunks prompt = chunkLoop (split spacesRegex prompt) 0"

text \<open>
  The normalisation (lines 277 to 280): \<open>capitalize\<close> is
  \<open>task.charAt(0).toUpperCase() + task.slice(1)\<close>.
\<close>

definition capitalize :: "(code_unit \<Rightarrow> jsstring) \<Rightarrow> jsstring \<Rightarrow> jsstring" where
  "capitalize tbl t = (case t of [] \<Rightarrow> [] | c # cs \<Rightarrow> toUpperCase tbl c @ cs)"

definition normalize :: "(code_unit \<Rightarrow> jsstring) \<Rightarrow> jsstring list \<Rightarrow> jsstring list" where
  "normalize tbl tasks =
     map (capitalize tbl) (filter (\<lambda>t. length t > 0) (map trim tasks))"

definition maxTasks :: nat where
  "maxTasks = 5"

text \<open>The lines of line 150.\<close>

definition nonBlankLines :: "jsstring \<Rightarrow> jsstring list" where
  "nonBlankLines prompt = filter (\<lambda>line. length (trim line) > 0) (split newlinesRegex prompt)"

text \<open>
  The candidates of lines 209 to 274: the separator loop, the phrase loop, the remaining
  text, then the two fallbacks, each taken when at most one task is there.
\<close>

definition separatorPass :: "jsstring \<Rightarrow> jsstring list \<times> jsstring" where
  "separatorPass prompt = foldl separatorStep ([], prompt) taskSeparators"

definition heuristicTasks :: "jsstring \<Rightarrow> jsstring list option" where
  "heuristicTasks prompt =
     (case separatorPass prompt of (tasks, remainingPrompt) \<Rightarrow>
        do {
          phraseMatches \<leftarrow> exec_all taskPhraseRegex [] prompt;
          let tasks = foldl (phraseStep prompt) tasks phraseMatches;
          let tasks = addRemaining tasks remainingPrompt;
          let tasks = (if length tasks \<le> 1 then sentences prompt else tasks);
          let tasks = (if length tasks \<le> 1 then chunks prompt else tasks);
          Some tasks
        })"

text \<open>Lines 277 to 294: normalisation, bound, and the prompt itself when nothing is left.\<close>

definition finish :: "(code_unit \<Rightarrow> jsstring) \<Rightarrow> jsstring \<Rightarrow> jsstring list \<Rightarrow> TaskDescriptor list" where
  "finish tbl prompt tasks0 =
     (let tasks = normalize tbl tasks0;
          tasks = (if length tasks > maxTasks then slice tasks 0 maxTasks else tasks)
      in if length tasks = 0 then [mkTask prompt] else map mkTask tasks)"

text \<open>
  The whole function. The two list loops run before either list is tested, as in the
  source. The promise it returns is resolved at once, so the model returns its value;
  \<open>None\<close> is the function not returning, which only an \<open>exec\<close> loop could cause.
\<close>

definition fallbackBreakdown :: "(code_unit \<Rightarrow> jsstring) \<Rightarrow> jsstring \<Rightarrow> TaskDescriptor list option" where
  "fallbackBreakdown tbl prompt =
     (let tasksFromLines = map (\<lambda>line. mkTask (trim line)) (nonBlankLines prompt)
      in if length tasksFromLines \<ge> 2 then Some tasksFromLines
         else do {
           bulletMatches \<leftarrow> exec_all bulletPointRegex [] prompt;
           let bulletPoints = concat (map pushCapture bulletMatches);
           numberedMatches \<leftarrow> exec_all numberedRegex [] prompt;
           let numberedPoints = concat (map pushCapture numberedMatches);
           if length bulletPoints \<ge> 2
           then Some (map mkTask (filter (\<lambda>point. length point > 5) bulletPoints))
           else if length numberedPoints \<ge> 2
           then Some (map mkTask (filter (\<lambda>point. length point > 5) numberedPoints))
           else do {
             tasks \<leftarrow> heuristicTasks prompt;
             Some (finish tbl prompt tasks)
           }
         })"

text \<open>
  The function without the bullet and the numbered branch, to compare with
  \<open>fallbackBreakdown\<close>.
\<close>

definition fallbackBreakdownPruned :: "(code_unit \<Rightarrow> jsstring) \<Rightarrow> jsstring \<Rightarrow> TaskDescriptor list option" where
  "fallbackBreakdownPruned tbl prompt =
     (let tasksFromLines = map (\<lambda>line. mkTask (trim line)) (nonBlankLines prompt)
      in if length tasksFromLines \<ge> 2 then Some tasksFromLines
         else do {
           tasks \<leftarrow> heuristicTasks prompt;
           Some (finish tbl prompt tasks)
         })"

section \<open>Notions of the specification\<close>

text \<open>
  A blank text has whitespace only. The lines of a text are the pieces between its
  newline characters \<open>U+000A\<close>, and its non-blank lines are \<open>visibleLines\<close>. These follow
  the words of the specification, not the source, which splits on \<open>/\n+/\<close>.
\<close>

definition isBlank :: "jsstring \<Rightarrow> bool" where
  "isBlank s = list_all isWhiteSpace s"

fun linesOf :: "jsstring \<Rightarrow> jsstring list" where
  "linesOf [] = [] # []"
| "linesOf (x # xs) =
     (if x = 0x0A then [] # linesOf xs
      else (case linesOf xs of [] \<Rightarrow> [x] # [] | l # ls \<Rightarrow> (x # l) # ls))"

definition visibleLines :: "jsstring \<Rightarrow> jsstring list" where
  "visibleLines prompt = filter (\<lambda>line. \<not> isBlank line) (linesOf prompt)"

text \<open>
  A case table that leaves the units from \<open>0x80\<close> on unchanged, for the ASCII examples,
  which never read it.
\<close>

definition identityTable :: "code_unit \<Rightarrow> jsstring" where
  "identityTable c = [c]"

text \<open>
  What normalising twice needs of the runtime's case table: the upper case of a visible
  unit is not empty, starts and ends with a visible unit, and its first unit is its own
  upper case. It holds of every ASCII unit whatever the table is.
\<close>

definition caseTableStable :: "(code_unit \<Rightarrow> jsstring) \<Rightarrow> bool" where
  "caseTableStable tbl \<longleftrightarrow>
     (\<forall>c. \<not> isWhiteSpace c \<longrightarrow>
        toUpperCase tbl c \<noteq> []
        \<and> \<not> isWhiteSpace (hd (toUpperCase tbl c))
        \<and> \<not> isWhiteSpace (last (toUpperCase tbl c))
        \<and> toUpperCase tbl (hd (toUpperCase tbl c)) @ tl (toUpperCase tbl c) = toUpperCase tbl c)"

section \<open>Notions of the proofs\<close>

text \<open>
  \<open>consumes Q r\<close>: every match of \<open>r\<close> reads a word that satisfies \<open>Q\<close>, and moves it
  from the text to read to the text read.
\<close>

definition consumes :: "('a list \<Rightarrow> bool) \<Rightarrow> 'a re \<Rightarrow> bool" where
  "consumes Q r \<longleftrightarrow>
     (\<forall>pre suf cap pre' suf' cap'. (pre', suf', cap') \<in> set (matcher r (pre, suf, cap)) \<longrightarrow>
        (\<exists>w. suf = w @ suf' \<and> pre' = rev w @ pre \<and> Q w))"

definition starts :: "('a \<Rightarrow> bool) \<Rightarrow> 'a list \<Rightarrow> bool" where
  "starts P w = (case w of [] \<Rightarrow> False | x # xs \<Rightarrow> P x)"

definition isDotOrNewline :: "code_unit \<Rightarrow> bool" where
  "isDotOrNewline c \<longleftrightarrow> c = 0x2E \<or> c = 0x0A"


text \<open>A list item: a newline, then something visible.\<close>

definition lineItem :: "jsstring \<Rightarrow> bool" where
  "lineItem w \<longleftrightarrow> (\<exists>w'. w = 0x0A # w' \<and> (\<exists>g \<in> set w'. \<not> isWhiteSpace g))"

definition glue :: "jsstring \<Rightarrow> jsstring list \<Rightarrow> jsstring list" where
  "glue c ls = (case ls of [] \<Rightarrow> [c] | l # ls' \<Rightarrow> (c @ l) # ls')"

abbreviation nonBlank :: "jsstring \<Rightarrow> bool" where
  "nonBlank line \<equiv> trim line \<noteq> []"

text \<open>What every pass collects: a trimmed, non-empty piece of text made of units of the prompt.\<close>

definition candidate :: "jsstring \<Rightarrow> jsstring \<Rightarrow> bool" where
  "candidate prompt t \<longleftrightarrow> t \<noteq> [] \<and> trim t = t \<and> set t \<subseteq> set prompt"

text \<open>
  The recursive equations of the repetition and of the two loops are unfolded by hand.
\<close>

declare matcher.simps(5) [simp del]
declare exec_all.simps [simp del]
declare chunkLoop.simps [simp del]

section \<open>The matcher\<close>

lemma m_Star_unfold:
  "st' \<in> set (matcher (Star a) (pre, suf, cap)) \<longleftrightarrow>
     st' = (pre, suf, cap) \<or>
     (\<exists>p1 s1 c1. (p1, s1, c1) \<in> set (matcher a (pre, suf, cap)) \<and> length s1 < length suf
        \<and> st' \<in> set (matcher (Star a) (p1, s1, c1)))"
  by (subst matcher.simps(5)) (auto split: if_splits)

lemma m_reads:
  "(pre', suf', cap') \<in> set (matcher r (pre, suf, cap)) \<Longrightarrow> \<exists>w. suf = w @ suf' \<and> pre' = rev w @ pre"
proof (induction r "(pre, suf, cap)" arbitrary: pre suf cap pre' suf' cap' rule: matcher.induct)
  case (1 pre suf cap)
  then show ?case by simp
next
  case (2 P pre suf cap)
  then show ?case by (auto split: list.splits if_splits)
next
  case (3 a b pre suf cap)
  from "3.prems" obtain p1 s1 c1 where
    a: "(p1, s1, c1) \<in> set (matcher a (pre, suf, cap))" and b: "(pre', suf', cap') \<in> set (matcher b (p1, s1, c1))"
    by auto
  from "3.hyps"(1)[OF a] obtain w1 where w1: "suf = w1 @ s1" "p1 = rev w1 @ pre" by blast
  from "3.hyps"(2)[OF a b] obtain w2 where w2: "s1 = w2 @ suf'" "pre' = rev w2 @ p1" by blast
  show ?case using w1 w2 by (intro exI[of _ "w1 @ w2"]) simp
next
  case (4 a b pre suf cap)
  then show ?case by auto
next
  case (5 a pre suf cap)
  show ?case
  proof (cases "(pre', suf', cap') = (pre, suf, cap)")
    case True
    then show ?thesis by simp
  next
    case False
    with "5.prems" obtain p1 s1 c1 where
      a: "(p1, s1, c1) \<in> set (matcher a (pre, suf, cap))" and l: "length s1 < length suf"
      and b: "(pre', suf', cap') \<in> set (matcher (Star a) (p1, s1, c1))"
      using m_Star_unfold[of "(pre', suf', cap')" a pre suf cap] by blast
    from "5.hyps"(1)[OF a] obtain w1 where w1: "suf = w1 @ s1" "p1 = rev w1 @ pre" by blast
    from "5.hyps"(2)[OF a refl refl l b] obtain w2 where w2: "s1 = w2 @ suf'" "pre' = rev w2 @ p1" by blast
    show ?thesis using w1 w2 by (intro exI[of _ "w1 @ w2"]) simp
  qed
next
  case (6 a pre suf cap)
  then show ?case by (auto split: if_splits)
next
  case (7 a pre suf cap)
  then show ?case by (auto split: if_splits)
next
  case (8 P pre suf cap)
  then show ?case by (auto split: list.splits if_splits)
qed

lemma consumesI:
  "(\<And>pre suf cap pre' suf' cap' w. (pre', suf', cap') \<in> set (matcher r (pre, suf, cap)) \<Longrightarrow>
      suf = w @ suf' \<Longrightarrow> pre' = rev w @ pre \<Longrightarrow> Q w) \<Longrightarrow> consumes Q r"
  unfolding consumes_def
proof (intro allI impI)
  fix pre suf cap pre' suf' cap'
  assume a: "(pre', suf', cap') \<in> set (matcher r (pre, suf, cap))"
    and r: "\<And>pre suf cap pre' suf' cap' w. (pre', suf', cap') \<in> set (matcher r (pre, suf, cap)) \<Longrightarrow>
      suf = w @ suf' \<Longrightarrow> pre' = rev w @ pre \<Longrightarrow> Q w"
  from m_reads[OF a] obtain w where w: "suf = w @ suf'" "pre' = rev w @ pre" by blast
  from r[OF a w] w show "\<exists>w. suf = w @ suf' \<and> pre' = rev w @ pre \<and> Q w" by blast
qed

lemma consumesD:
  "consumes Q r \<Longrightarrow> (pre', suf', cap') \<in> set (matcher r (pre, suf, cap)) \<Longrightarrow>
     \<exists>w. suf = w @ suf' \<and> pre' = rev w @ pre \<and> Q w"
  unfolding consumes_def by blast

lemma consumes_weaken: "consumes Q r \<Longrightarrow> (\<And>w. Q w \<Longrightarrow> Q' w) \<Longrightarrow> consumes Q' r"
  unfolding consumes_def by blast

lemma consumes_Chr: "consumes (\<lambda>w. \<exists>x. w = [x] \<and> P x) (Chr P)"
  unfolding consumes_def by (auto split: list.splits if_splits)

lemma consumes_Seq:
  assumes "consumes Qa a" and "consumes Qb b"
  shows "consumes (\<lambda>w. \<exists>u v. w = u @ v \<and> Qa u \<and> Qb v) (Seq a b)"
  unfolding consumes_def
proof (intro allI impI)
  fix pre suf cap pre' suf' cap'
  assume "(pre', suf', cap') \<in> set (matcher (Seq a b) (pre, suf, cap))"
  then obtain p1 s1 c1 where
    a: "(p1, s1, c1) \<in> set (matcher a (pre, suf, cap))" and b: "(pre', suf', cap') \<in> set (matcher b (p1, s1, c1))"
    by auto
  from consumesD[OF assms(1) a] obtain u where u: "suf = u @ s1" "p1 = rev u @ pre" "Qa u" by blast
  from consumesD[OF assms(2) b] obtain v where v: "s1 = v @ suf'" "pre' = rev v @ p1" "Qb v" by blast
  show "\<exists>w. suf = w @ suf' \<and> pre' = rev w @ pre \<and> (\<exists>u v. w = u @ v \<and> Qa u \<and> Qb v)"
    using u v by (intro exI[of _ "u @ v"]) auto
qed

lemma consumes_Alt: "consumes Q a \<Longrightarrow> consumes Q b \<Longrightarrow> consumes Q (Alt a b)"
  unfolding consumes_def by (simp only: matcher.simps set_append Un_iff) blast

lemma consumes_Group: "consumes Q a \<Longrightarrow> consumes Q (Group a)"
  unfolding consumes_def by auto blast

lemma consumes_any: "consumes (\<lambda>w. True) r"
  by (rule consumesI) simp

lemma consumes_Star:
  assumes a: "consumes Q a" and e: "Q []" and app: "\<And>u v. Q u \<Longrightarrow> Q v \<Longrightarrow> Q (u @ v)"
  shows "consumes Q (Star a)"
proof -
  have "(pre', suf', cap') \<in> set (matcher (Star a) (pre, suf, cap)) \<Longrightarrow>
          \<exists>w. suf = w @ suf' \<and> pre' = rev w @ pre \<and> Q w" for pre suf cap pre' suf' cap'
  proof (induction "length suf" arbitrary: pre suf cap rule: less_induct)
    case less
    from less.prems consider "(pre', suf', cap') = (pre, suf, cap)"
      | p1 s1 c1 where "(p1, s1, c1) \<in> set (matcher a (pre, suf, cap))" "length s1 < length suf"
          "(pre', suf', cap') \<in> set (matcher (Star a) (p1, s1, c1))"
      using m_Star_unfold[of "(pre', suf', cap')" a pre suf cap] by blast
    then show ?case
    proof cases
      case 1
      with e show ?thesis by simp
    next
      case 2
      from consumesD[OF a 2(1)] obtain u where u: "suf = u @ s1" "p1 = rev u @ pre" "Q u" by blast
      from less.hyps[OF 2(2) 2(3)] obtain v where v: "s1 = v @ suf'" "pre' = rev v @ p1" "Q v" by blast
      show ?thesis using u v app by (intro exI[of _ "u @ v"]) auto
    qed
  qed
  then show ?thesis unfolding consumes_def by blast
qed

lemma consumes_Opt:
  assumes a: "consumes Q a" and e: "Q []"
  shows "consumes Q (Opt a)"
  unfolding consumes_def
proof (intro allI impI)
  fix pre suf cap pre' suf' cap'
  assume "(pre', suf', cap') \<in> set (matcher (Opt a) (pre, suf, cap))"
  then consider "(pre', suf', cap') = (pre, suf, cap)"
    | "(pre', suf', cap') \<in> set (matcher a (pre, suf, cap))"
    by auto
  then show "\<exists>w. suf = w @ suf' \<and> pre' = rev w @ pre \<and> Q w"
  proof cases
    case 1
    with e show ?thesis by simp
  next
    case 2
    from consumesD[OF a 2] show ?thesis .
  qed
qed

lemma starts_append: "starts P u \<Longrightarrow> starts P (u @ v)"
  by (cases u) (auto simp: starts_def)

lemma consumes_starts_Chr: "(\<And>x. P' x \<Longrightarrow> P x) \<Longrightarrow> consumes (starts P) (Chr P')"
  by (rule consumes_weaken[OF consumes_Chr]) (auto simp: starts_def)

lemma consumes_starts_Seq: "consumes (starts P) a \<Longrightarrow> consumes (starts P) (Seq a b)"
  by (rule consumes_weaken[OF consumes_Seq[OF _ consumes_any]]) (auto simp: starts_append)

lemma consumes_starts_Plus: "consumes (starts P) a \<Longrightarrow> consumes (starts P) (Plus a)"
  unfolding Plus_def by (rule consumes_starts_Seq)

lemma consumes_all_Star: "consumes (list_all P) a \<Longrightarrow> consumes (list_all P) (Star a)"
  by (rule consumes_Star) auto

lemma consumes_all_Plus: "consumes (list_all P) a \<Longrightarrow> consumes (list_all P) (Plus a)"
  unfolding Plus_def
  by (rule consumes_weaken[OF consumes_Seq[OF _ consumes_all_Star]]) auto

lemma consumes_all_Chr: "consumes (list_all P) (Chr P)"
  by (rule consumes_weaken[OF consumes_Chr]) auto

text \<open>What a successful search read.\<close>

lemma search_Some:
  "search r pre suf = Some (mt, pre', suf') \<Longrightarrow>
     \<exists>u w. suf = u @ w @ suf' \<and> index mt = length pre + length u \<and> text0 mt = w
       \<and> pre' = rev w @ rev u @ pre
       \<and> (pre', suf', group1 mt) \<in> set (matcher r (rev u @ pre, w @ suf', None))"
proof (induction suf arbitrary: pre)
  case Nil
  then obtain rest where r: "matcher r (pre, [], None) = (pre', suf', group1 mt) # rest" and i: "index mt = length pre" "text0 mt = []"
    by (auto split: list.splits)
  then have mem: "(pre', suf', group1 mt) \<in> set (matcher r (pre, [], None))" by simp
  from m_reads[OF mem] have "suf' = []" "pre' = pre" by auto
  with mem i show ?case by simp
next
  case (Cons x xs)
  show ?case
  proof (cases "matcher r (pre, x # xs, None)")
    case Nil
    with Cons.prems have "search r (x # pre) xs = Some (mt, pre', suf')" by simp
    from Cons.IH[OF this] obtain u w where
      "xs = u @ w @ suf'" "index mt = length (x # pre) + length u" "text0 mt = w"
      "pre' = rev w @ rev u @ x # pre"
      "(pre', suf', group1 mt) \<in> set (matcher r (rev u @ x # pre, w @ suf', None))" by blast
    then show ?thesis by (intro exI[of _ "x # u"] exI[of _ w]) simp
  next
    case (Cons st rest)
    with Cons.prems have st: "st = (pre', suf', group1 mt)" and i: "index mt = length pre"
      and t: "text0 mt = take (length (x # xs) - length suf') (x # xs)"
      by (auto split: prod.splits)
    with Cons have mem: "(pre', suf', group1 mt) \<in> set (matcher r (pre, x # xs, None))" by simp
    from m_reads[OF mem] obtain w where w: "x # xs = w @ suf'" "pre' = rev w @ pre" by blast
    then have "text0 mt = w" using t by simp
    with w i mem show ?thesis by (intro exI[of _ "[]"] exI[of _ w]) simp
  qed
qed

lemma search_consumes:
  assumes "consumes Q r" and "search r pre suf = Some (mt, pre', suf')"
  shows "\<exists>u w. suf = u @ w @ suf' \<and> index mt = length pre + length u \<and> text0 mt = w
           \<and> pre' = rev w @ rev u @ pre \<and> Q w"
proof -
  from search_Some[OF assms(2)] obtain u w where
    *: "suf = u @ w @ suf'" "index mt = length pre + length u" "text0 mt = w"
       "pre' = rev w @ rev u @ pre"
       "(pre', suf', group1 mt) \<in> set (matcher r (rev u @ pre, w @ suf', None))" by blast
  from consumesD[OF assms(1) *(5)] obtain w' where "w @ suf' = w' @ suf'" "Q w'" by blast
  then have "Q w" by simp
  with * show ?thesis by blast
qed

text \<open>The exec loop returns when every match reads something.\<close>

lemma search_shorter:
  assumes "consumes (\<lambda>w. w \<noteq> []) r" and "search r pre suf = Some (mt, pre', suf')"
  shows "length suf' < length suf"
  using search_consumes[OF assms] by auto

lemma exec_all_total:
  assumes "consumes (\<lambda>w. w \<noteq> []) r"
  shows "\<exists>ms. exec_all r pre suf = Some ms"
proof (induction "length suf" arbitrary: pre suf rule: less_induct)
  case less
  show ?case
  proof (cases "search r pre suf")
    case None
    then show ?thesis by (subst exec_all.simps) simp
  next
    case (Some res)
    obtain mt pre' suf' where res: "res = (mt, pre', suf')" by (cases res) auto
    from search_shorter[OF assms Some[unfolded res]] have l: "length suf' < length suf" .
    from less[OF l] obtain ms where "exec_all r pre' suf' = Some ms" by blast
    with Some res l show ?thesis by (subst exec_all.simps) simp
  qed
qed

lemma exec_all_two:
  assumes Q: "consumes Q r" and ex: "exec_all r pre suf = Some ms" and len: "2 \<le> length ms"
  shows "\<exists>u1 w1 u2 w2 rest. suf = u1 @ w1 @ u2 @ w2 @ rest \<and> Q w1 \<and> Q w2"
proof -
  from ex len obtain m1 p1 s1 ms1 where
    s1: "search r pre suf = Some (m1, p1, s1)" and e1: "exec_all r p1 s1 = Some ms1" and l1: "1 \<le> length ms1"
    by (subst (asm) exec_all.simps) (auto split: option.splits if_splits)
  from e1 l1 obtain m2 p2 s2 where s2: "search r p1 s1 = Some (m2, p2, s2)"
    by (subst (asm) exec_all.simps) (auto split: option.splits if_splits)
  from search_consumes[OF Q s1] obtain u1 w1 where a: "suf = u1 @ w1 @ s1" "Q w1" by blast
  from search_consumes[OF Q s2] obtain u2 w2 where b: "s1 = u2 @ w2 @ s2" "Q w2" by blast
  from a b show ?thesis by blast
qed

section \<open>Facts about the classes\<close>

lemma newline_isWhiteSpace [simp]: "isWhiteSpace 0x0A"
  by (simp add: isWhiteSpace_def isLineTerminator_def)

lemma space_isWhiteSpace [simp]: "isWhiteSpace 0x20"
  by (simp add: isWhiteSpace_def)

lemma isBullet_visible: "isBullet x \<Longrightarrow> \<not> isWhiteSpace x"
  by (auto simp: isBullet_def isWhiteSpace_def isLineTerminator_def)

lemma isDigit_visible: "isDigit x \<Longrightarrow> \<not> isWhiteSpace x"
  by (auto simp: isDigit_def isWhiteSpace_def isLineTerminator_def word_le_nat_alt)

lemma asciiUpper_range:
  "0x61 \<le> x \<Longrightarrow> x \<le> 0x7A \<Longrightarrow> 0x41 \<le> x - 0x20 \<and> x - 0x20 \<le> (0x5A :: code_unit)"
  by unat_arith

lemma asciiUpper_cases:
  "asciiUpper x = x \<or> (0x61 \<le> x \<and> x \<le> 0x7A \<and> 0x41 \<le> asciiUpper x \<and> asciiUpper x \<le> 0x5A)"
  using asciiUpper_range[of x] unfolding asciiUpper_def by auto

lemma isWhiteSpace_asciiUpper: "isWhiteSpace (asciiUpper x) = isWhiteSpace x"
  using asciiUpper_cases[of x]
  by (auto simp: isWhiteSpace_def isLineTerminator_def word_le_nat_alt)

lemma asciiUpper_idem: "asciiUpper (asciiUpper x) = asciiUpper x"
  using asciiUpper_cases[of x]
  by (auto simp: asciiUpper_def word_le_nat_alt)

lemma asciiUpper_ascii: "x < 0x80 \<Longrightarrow> asciiUpper x < 0x80"
  using asciiUpper_cases[of x]
  by (auto simp: word_le_nat_alt word_less_nat_alt)

lemma litI_visible:
  "asciiUpper x = asciiUpper c \<Longrightarrow> \<not> isWhiteSpace c \<Longrightarrow> \<not> isWhiteSpace x"
  using isWhiteSpace_asciiUpper[of x] isWhiteSpace_asciiUpper[of c] by simp

section \<open>What the patterns of the source read\<close>

lemma consumes_lit: "consumes (\<lambda>w. w = [of_char c]) (lit c)"
  unfolding lit_def by (rule consumes_weaken[OF consumes_Chr]) auto

lemma consumes_dotOrNewline:
  "consumes (starts isDotOrNewline) (Seq (Alt (lit CHR ''.'') (lit CHR 0x0A)) b)"
  unfolding lit_def
  by (intro consumes_starts_Seq consumes_Alt consumes_starts_Chr) (simp_all add: isDotOrNewline_def)


lemma taskPhraseRegex_starts: "consumes (starts isDotOrNewline) taskPhraseRegex"
  unfolding taskPhraseRegex_def by (rule consumes_dotOrNewline)


lemma starts_nonempty: "starts P w \<Longrightarrow> w \<noteq> []"
  by (auto simp: starts_def)

lemma consumes_lineItem:
  assumes "consumes (starts (\<lambda>x. \<not> isWhiteSpace x)) b"
  shows "consumes lineItem (Seq (lit CHR 0x0A) (Seq (Star ws) b))"
proof (rule consumes_weaken[OF consumes_Seq[OF consumes_lit consumes_Seq[OF consumes_any assms]]])
  fix w :: jsstring
  assume "\<exists>u v. w = u @ v \<and> u = [of_char CHR 0x0A] \<and> (\<exists>u' v'. v = u' @ v' \<and> True \<and> starts (\<lambda>x. \<not> isWhiteSpace x) v')"
  then obtain u' v' where w: "w = 0x0A # u' @ v'" and s: "starts (\<lambda>x. \<not> isWhiteSpace x) v'"
    by auto
  from s obtain g rest where "v' = g # rest" "\<not> isWhiteSpace g"
    by (cases v') (auto simp: starts_def)
  with w show "lineItem w" unfolding lineItem_def by auto
qed

lemma bulletPointRegex_lineItem: "consumes lineItem bulletPointRegex"
  unfolding bulletPointRegex_def
  by (intro consumes_lineItem consumes_starts_Seq consumes_starts_Chr) (rule isBullet_visible)

lemma numberedRegex_lineItem: "consumes lineItem numberedRegex"
  unfolding numberedRegex_def digit_def litI_def
  apply (intro consumes_lineItem consumes_starts_Seq consumes_Alt consumes_starts_Plus)
   apply (rule consumes_starts_Chr, erule isDigit_visible)
  apply (simp add: litI_def)
  apply (intro consumes_starts_Seq consumes_starts_Chr)
  apply (erule litI_visible)
  apply (simp add: isWhiteSpace_def isLineTerminator_def)
  done

lemma lineItem_nonempty: "lineItem w \<Longrightarrow> w \<noteq> []"
  by (auto simp: lineItem_def)

lemma bullet_total: "\<exists>ms. exec_all bulletPointRegex pre suf = Some ms"
  by (rule exec_all_total[OF consumes_weaken[OF bulletPointRegex_lineItem lineItem_nonempty]])

lemma numbered_total: "\<exists>ms. exec_all numberedRegex pre suf = Some ms"
  by (rule exec_all_total[OF consumes_weaken[OF numberedRegex_lineItem lineItem_nonempty]])

lemma phrase_total: "\<exists>ms. exec_all taskPhraseRegex pre suf = Some ms"
  by (rule exec_all_total[OF consumes_weaken[OF taskPhraseRegex_starts starts_nonempty]])

section \<open>Trimming\<close>

lemma trim_Nil [simp]: "trim [] = []"
  by (simp add: trim_def)

lemma trim_eq_Nil: "trim s = [] \<longleftrightarrow> isBlank s"
proof -
  let ?d = "dropWhile isWhiteSpace s"
  have "trim s = [] \<longleftrightarrow> (\<forall>x \<in> set ?d. isWhiteSpace x)"
    by (simp add: trim_def dropWhile_eq_Nil_conv)
  also have "\<dots> \<longleftrightarrow> ?d = []"
  proof
    assume a: "\<forall>x \<in> set ?d. isWhiteSpace x"
    show "?d = []"
    proof (rule ccontr)
      assume n: "?d \<noteq> []"
      then have "\<not> isWhiteSpace (hd ?d)" by (rule hd_dropWhile)
      moreover have "hd ?d \<in> set ?d" using n by simp
      ultimately show False using a by blast
    qed
  next
    assume "?d = []"
    then have "set ?d = {}" by (simp only: set_empty)
    then show "\<forall>x \<in> set ?d. isWhiteSpace x" by (simp only: ball_empty)
  qed
  also have "\<dots> \<longleftrightarrow> isBlank s"
    by (simp add: dropWhile_eq_Nil_conv isBlank_def list_all_iff)
  finally show ?thesis .
qed

lemma set_trim: "set (trim s) \<subseteq> set s"
proof -
  have "set (trim s) \<subseteq> set (dropWhile isWhiteSpace s)"
    unfolding trim_def using set_dropWhileD[of _ isWhiteSpace "rev (dropWhile isWhiteSpace s)"] by auto
  also have "\<dots> \<subseteq> set s" using set_dropWhileD by fast
  finally show ?thesis .
qed

lemma trim_hd: "trim s \<noteq> [] \<Longrightarrow> \<not> isWhiteSpace (hd (trim s))"
proof -
  assume ne: "trim s \<noteq> []"
  let ?d = "dropWhile isWhiteSpace s"
  have d: "?d \<noteq> []"
  proof
    assume "?d = []"
    then have "trim s = []" by (simp only: trim_def rev.simps dropWhile.simps)
    with ne show False by simp
  qed
  then have h: "\<not> isWhiteSpace (hd ?d)" by (rule hd_dropWhile)
  then have "\<not> isWhiteSpace (last (rev ?d))" using d by (simp add: last_rev)
  obtain x xs where x: "?d = x # xs" using d by (cases ?d) auto
  have "rev (dropWhile isWhiteSpace (rev ?d)) = x # rev (dropWhile isWhiteSpace (rev xs))"
    using h x by (simp add: dropWhile_append3)
  then show ?thesis using h x by (simp add: trim_def)
qed

lemma trim_last: "trim s \<noteq> [] \<Longrightarrow> \<not> isWhiteSpace (last (trim s))"
proof -
  assume ne: "trim s \<noteq> []"
  let ?e = "dropWhile isWhiteSpace (rev (dropWhile isWhiteSpace s))"
  from ne have e: "?e \<noteq> []" by (simp add: trim_def)
  then have "\<not> isWhiteSpace (hd ?e)" by (rule hd_dropWhile)
  then show ?thesis using e by (simp add: trim_def last_rev)
qed

lemma trim_fixed: "t \<noteq> [] \<Longrightarrow> \<not> isWhiteSpace (hd t) \<Longrightarrow> \<not> isWhiteSpace (last t) \<Longrightarrow> trim t = t"
proof -
  assume t: "t \<noteq> []" and h: "\<not> isWhiteSpace (hd t)" and l: "\<not> isWhiteSpace (last t)"
  from t h have 1: "dropWhile isWhiteSpace t = t" by (cases t) auto
  from t l have 2: "dropWhile isWhiteSpace (rev t) = rev t" by (cases "rev t") (auto simp: last_rev[symmetric] simp del: last_rev)
  show ?thesis by (simp add: trim_def 1 2)
qed

lemma trim_idem [simp]: "trim (trim s) = trim s"
proof (cases "trim s = []")
  case True
  then show ?thesis by simp
next
  case False
  then show ?thesis by (intro trim_fixed trim_hd trim_last)
qed

lemma trim_visible: "trim s \<noteq> [] \<longleftrightarrow> (\<exists>c \<in> set s. \<not> isWhiteSpace c)"
  by (auto simp: trim_eq_Nil isBlank_def list_all_iff)

section \<open>Splitting on runs of one class\<close>

lemma m_Star_Chr_hd:
  "\<exists>rest. matcher (Star (Chr P)) (pre, suf, cap) = (rev (takeWhile P suf) @ pre, dropWhile P suf, cap) # rest"
proof (induction suf arbitrary: pre)
  case Nil
  show ?case by (subst matcher.simps(5)) simp
next
  case (Cons x xs)
  show ?case
  proof (cases "P x")
    case True
    from Cons[of "x # pre"] obtain rest where
      "matcher (Star (Chr P)) (x # pre, xs, cap) = (rev (takeWhile P xs) @ x # pre, dropWhile P xs, cap) # rest"
      by blast
    with True show ?thesis by (subst matcher.simps(5)) simp
  next
    case False
    then show ?thesis by (subst matcher.simps(5)) simp
  qed
qed

lemma split_loop_Plus_Chr:
  "split_loop (Plus (Chr P)) pre cur (x # xs) =
     (if P x then rev cur # split_loop (Plus (Chr P)) (rev (takeWhile P xs) @ x # pre) [] (dropWhile P xs)
      else split_loop (Plus (Chr P)) (x # pre) (x # cur) xs)"
proof (cases "P x")
  case True
  obtain rest where
    r: "matcher (Star (Chr P)) (x # pre, xs, None) = (rev (takeWhile P xs) @ x # pre, dropWhile P xs, None) # rest"
    using m_Star_Chr_hd[of P "x # pre" xs None] by blast
  have "length (dropWhile P xs) < Suc (length xs)"
    using length_dropWhile_le[of P xs] by simp
  with True r show ?thesis by (simp add: Plus_def)
next
  case False
  then show ?thesis by (simp add: Plus_def)
qed

lemma linesOf_nonempty [simp]: "linesOf s \<noteq> []"
  by (induction s) (auto split: list.splits)

lemma glue_Nil [simp]: "glue [] (linesOf s) = linesOf s"
  by (cases "linesOf s") (auto simp: glue_def)

lemma linesOf_Cons_other: "x \<noteq> 0x0A \<Longrightarrow> linesOf (x # xs) = glue [x] (linesOf xs)"
  by (cases "linesOf xs") (auto simp: glue_def)

lemma glue_glue: "glue a (glue b (linesOf s)) = glue (a @ b) (linesOf s)"
  by (cases "linesOf s") (auto simp: glue_def)

lemma filter_linesOf_dropWhile:
  "filter nonBlank (linesOf (dropWhile (\<lambda>x. x = 0x0A) xs)) = filter nonBlank (linesOf xs)"
  by (induction xs) auto

lemma split_loop_newlines:
  "filter nonBlank (split_loop newlinesRegex pre cur suf) = filter nonBlank (glue (rev cur) (linesOf suf))"
proof (induction "length suf" arbitrary: pre cur suf rule: less_induct)
  case less
  show ?case
  proof (cases suf)
    case Nil
    then show ?thesis by (simp add: glue_def)
  next
    case (Cons x xs)
    let ?nl = "\<lambda>x::code_unit. x = 0x0A"
    show ?thesis
    proof (cases "x = 0x0A")
      case True
      have l: "length (dropWhile ?nl xs) < length suf"
        using length_dropWhile_le[of ?nl xs] Cons by simp
      have 1: "split_loop newlinesRegex pre cur (x # xs)
              = rev cur # split_loop newlinesRegex (rev (takeWhile ?nl xs) @ x # pre) [] (dropWhile ?nl xs)"
        unfolding newlinesRegex_def lit_def using True
        by (subst split_loop_Plus_Chr) simp
      have 2: "filter nonBlank (split_loop newlinesRegex (rev (takeWhile ?nl xs) @ x # pre) [] (dropWhile ?nl xs))
              = filter nonBlank (linesOf xs)"
        using less[OF l, of _ "[]"] by (simp add: filter_linesOf_dropWhile)
      have 3: "glue (rev cur) (linesOf (x # xs)) = rev cur # linesOf xs"
        using True by (simp add: glue_def)
      show ?thesis unfolding Cons 1 3 by (simp add: 2)
    next
      case False
      have l: "length xs < length suf" using Cons by simp
      have 1: "split_loop newlinesRegex pre cur (x # xs) = split_loop newlinesRegex (x # pre) (x # cur) xs"
        unfolding newlinesRegex_def lit_def using False
        by (subst split_loop_Plus_Chr) simp
      have 3: "glue (rev cur) (linesOf (x # xs)) = glue (rev (x # cur)) (linesOf xs)"
        using False by (simp add: linesOf_Cons_other glue_glue del: linesOf.simps)
      show ?thesis unfolding Cons 1 3 by (rule less[OF l])
    qed
  qed
qed

lemma nonBlankLines_linesOf: "nonBlankLines prompt = filter nonBlank (linesOf prompt)"
proof (cases "prompt = []")
  case True
  then show ?thesis by (simp add: nonBlankLines_def split_def)
next
  case False
  then show ?thesis
    using split_loop_newlines[of "[]" "[]" prompt] by (simp add: nonBlankLines_def split_def)
qed

section \<open>List items lie on lines of their own\<close>

lemma linesOf_append_newline: "linesOf (a @ 0x0A # b) = linesOf a @ linesOf b"
proof (induction a)
  case Nil
  show ?case by simp
next
  case (Cons x a)
  obtain l ls where l: "linesOf a = l # ls" by (cases "linesOf a") auto
  with Cons show ?case by simp
qed

lemma concat_linesOf: "concat (linesOf s) = filter (\<lambda>x. x \<noteq> 0x0A) s"
proof (induction s)
  case Nil
  show ?case by simp
next
  case (Cons x s)
  obtain l ls where l: "linesOf s = l # ls" by (cases "linesOf s") auto
  with Cons show ?case by auto
qed

lemma visible_line:
  assumes "g \<in> set s" and "\<not> isWhiteSpace g"
  shows "filter nonBlank (linesOf s) \<noteq> []"
proof -
  from assms have "g \<noteq> 0x0A" by auto
  with assms have "g \<in> set (concat (linesOf s))" by (simp add: concat_linesOf)
  then obtain l where l: "l \<in> set (linesOf s)" "g \<in> set l" by auto
  with assms have "nonBlank l" by (auto simp: trim_visible)
  with l show ?thesis by (auto simp: filter_empty_conv)
qed

lemma two_visible_lines:
  assumes "g1 \<in> set a" "\<not> isWhiteSpace g1" "g2 \<in> set b" "\<not> isWhiteSpace g2"
  shows "2 \<le> length (filter nonBlank (linesOf (a @ 0x0A # b)))"
proof -
  from visible_line[OF assms(1,2)] have "1 \<le> length (filter nonBlank (linesOf a))"
    by (cases "filter nonBlank (linesOf a)") auto
  moreover from visible_line[OF assms(3,4)] have "1 \<le> length (filter nonBlank (linesOf b))"
    by (cases "filter nonBlank (linesOf b)") auto
  ultimately show ?thesis by (simp add: linesOf_append_newline)
qed

lemma two_items_two_lines:
  assumes r: "consumes lineItem r" and ex: "exec_all r pre prompt = Some ms" and len: "2 \<le> length ms"
  shows "2 \<le> length (nonBlankLines prompt)"
proof -
  from exec_all_two[OF r ex len] obtain u1 w1 u2 w2 rest where
    p: "prompt = u1 @ w1 @ u2 @ w2 @ rest" and "lineItem w1" "lineItem w2" by blast
  then obtain v1 g1 v2 g2 where
    w1: "w1 = 0x0A # v1" "g1 \<in> set v1" "\<not> isWhiteSpace g1" and
    w2: "w2 = 0x0A # v2" "g2 \<in> set v2" "\<not> isWhiteSpace g2"
    unfolding lineItem_def by blast
  have e: "prompt = (u1 @ 0x0A # v1 @ u2) @ 0x0A # (v2 @ rest)" using p w1 w2 by simp
  have "g1 \<in> set (u1 @ 0x0A # v1 @ u2)" "g2 \<in> set (v2 @ rest)" using w1 w2 by auto
  from two_visible_lines[OF this(1) w1(3) this(2) w2(3)]
  show ?thesis unfolding nonBlankLines_linesOf e .
qed

lemma length_pushCaptures: "length (concat (map pushCapture ms)) \<le> length ms"
  by (induction ms) (auto simp: pushCapture_def split: option.splits)

lemma few_lines_few_items:
  assumes r: "consumes lineItem r" and ex: "exec_all r pre prompt = Some ms"
    and few: "\<not> 2 \<le> length (nonBlankLines prompt)"
  shows "\<not> 2 \<le> length (concat (map pushCapture ms))"
  using two_items_two_lines[OF r ex] few length_pushCaptures[of ms] by linarith

lemma fallbackBreakdown_pruned: "fallbackBreakdown tbl prompt = fallbackBreakdownPruned tbl prompt"
proof (cases "2 \<le> length (nonBlankLines prompt)")
  case True
  then show ?thesis by (simp add: fallbackBreakdown_def fallbackBreakdownPruned_def)
next
  case False
  obtain bs where bs: "exec_all bulletPointRegex [] prompt = Some bs" using bullet_total by blast
  obtain ns where ns: "exec_all numberedRegex [] prompt = Some ns" using numbered_total by blast
  from few_lines_few_items[OF bulletPointRegex_lineItem bs False]
       few_lines_few_items[OF numberedRegex_lineItem ns False] False bs ns
  show ?thesis by (simp add: fallbackBreakdown_def fallbackBreakdownPruned_def)
qed

section \<open>The pieces of a split\<close>

lemma split_loop_subset:
  "piece \<in> set (split_loop r pre cur suf) \<Longrightarrow> set piece \<subseteq> set cur \<union> set suf"
proof (induction r pre cur suf rule: split_loop.induct)
  case (1 r pre cur)
  then show ?case by simp
next
  case (2 r pre cur x xs)
  show ?case
  proof (cases "matcher r (pre, x # xs, None)")
    case Nil
    with 2 show ?thesis by auto
  next
    case (Cons st rest)
    obtain pre' suf' cap where st: "st = (pre', suf', cap)" by (cases st) auto
    have mem: "(pre', suf', cap) \<in> set (matcher r (pre, x # xs, None))" using Cons st by simp
    from m_reads[OF mem] obtain w where w: "x # xs = w @ suf'" by blast
    then have sub: "set suf' \<subseteq> set (x # xs)" by (metis set_append Un_upper2)
    consider (a) "length suf' < length (x # xs)"
      | (b) "\<not> length suf' < length (x # xs)" "cur = []"
      | (c) "\<not> length suf' < length (x # xs)" "cur \<noteq> []" by blast
    then show ?thesis
    proof cases
      case a
      with "2.prems" Cons st have "piece = rev cur \<or> piece \<in> set (split_loop r pre' [] suf')" by simp
      then show ?thesis
      proof
        assume "piece = rev cur" then show ?thesis by auto
      next
        assume "piece \<in> set (split_loop r pre' [] suf')"
        from "2.IH"(2)[OF Cons st[symmetric] refl a this] sub show ?thesis by auto
      qed
    next
      case b
      with "2.prems" Cons st have "piece \<in> set (split_loop r (x # pre) (x # cur) xs)" by simp
      from "2.IH"(3)[OF Cons st[symmetric] refl b this] show ?thesis by auto
    next
      case c
      with "2.prems" Cons st have "piece = rev cur \<or> piece \<in> set (split_loop r pre [] (x # xs))" by simp
      then show ?thesis
      proof
        assume "piece = rev cur" then show ?thesis by auto
      next
        assume "piece \<in> set (split_loop r pre [] (x # xs))"
        from "2.IH"(4)[OF Cons st[symmetric] refl c this] show ?thesis by auto
      qed
    qed
  qed
qed

lemma split_subset: "piece \<in> set (split r s) \<Longrightarrow> set piece \<subseteq> set s"
  using split_loop_subset[of piece r "[]" "[]" s] by (auto simp: split_def split: if_splits)

lemma split_loop_keeps:
  "consumes (list_all P) r \<Longrightarrow> c \<in> set cur \<union> set suf \<Longrightarrow> \<not> P c \<Longrightarrow>
     \<exists>piece \<in> set (split_loop r pre cur suf). c \<in> set piece"
proof (induction r pre cur suf rule: split_loop.induct)
  case (1 r pre cur)
  then show ?case by simp
next
  case (2 r pre cur x xs)
  note r = "2.prems"(1)
  show ?case
  proof (cases "matcher r (pre, x # xs, None)")
    case Nil
    with 2 show ?thesis by auto
  next
    case (Cons st rest)
    obtain pre' suf' cap where st: "st = (pre', suf', cap)" by (cases st) auto
    have mem: "(pre', suf', cap) \<in> set (matcher r (pre, x # xs, None))" using Cons st by simp
    from consumesD[OF r mem] obtain w where w: "x # xs = w @ suf'" "list_all P w" by blast
    from w(2) "2.prems"(3) have cw: "c \<notin> set w" by (auto simp: list_all_iff)
    have split: "c \<in> set (x # xs) \<Longrightarrow> c \<in> set suf'"
    proof -
      assume "c \<in> set (x # xs)"
      then have "c \<in> set (w @ suf')" using w(1) by simp
      with cw show ?thesis by simp
    qed
    consider (a) "length suf' < length (x # xs)"
      | (b) "\<not> length suf' < length (x # xs)" "cur = []"
      | (c) "\<not> length suf' < length (x # xs)" "cur \<noteq> []" by blast
    then show ?thesis
    proof cases
      case a
      have eq: "split_loop r pre cur (x # xs) = rev cur # split_loop r pre' [] suf'"
        using a Cons st by simp
      show ?thesis
      proof (cases "c \<in> set cur")
        case True
        then show ?thesis unfolding eq by simp
      next
        case False
        with "2.prems"(2) split have "c \<in> set [] \<union> set suf'" by auto
        from "2.IH"(2)[OF Cons st[symmetric] refl a r this "2.prems"(3)] show ?thesis unfolding eq by auto
      qed
    next
      case b
      have eq: "split_loop r pre cur (x # xs) = split_loop r (x # pre) (x # cur) xs"
        using b Cons st by simp
      from "2.prems"(2) have "c \<in> set (x # cur) \<union> set xs" by auto
      from "2.IH"(3)[OF Cons st[symmetric] refl b r this "2.prems"(3)] show ?thesis unfolding eq .
    next
      case c
      have eq: "split_loop r pre cur (x # xs) = rev cur # split_loop r pre [] (x # xs)"
        using c Cons st by simp
      show ?thesis
      proof (cases "c \<in> set cur")
        case True
        then show ?thesis unfolding eq by simp
      next
        case False
        with "2.prems"(2) have "c \<in> set [] \<union> set (x # xs)" by auto
        from "2.IH"(4)[OF Cons st[symmetric] refl c r this "2.prems"(3)] show ?thesis unfolding eq by auto
      qed
    qed
  qed
qed

lemma spacesRegex_spaces: "consumes (list_all isWhiteSpace) spacesRegex"
  unfolding spacesRegex_def ws_def by (intro consumes_all_Plus consumes_all_Chr)

lemma split_spaces_keeps:
  assumes "c \<in> set prompt" and "\<not> isWhiteSpace c"
  shows "\<exists>word \<in> set (split spacesRegex prompt). c \<in> set word"
proof -
  from assms have "prompt \<noteq> []" by auto
  then have "split spacesRegex prompt = split_loop spacesRegex [] [] prompt" by (simp add: split_def)
  with split_loop_keeps[OF spacesRegex_spaces, of c "[]" prompt "[]"] assms show ?thesis by simp
qed

section \<open>Chunks\<close>

lemma set_join: "set (join wl) \<subseteq> insert 0x20 (\<Union>(set ` set wl))"
  by (induction wl rule: join.induct) auto

lemma join_holds: "w \<in> set wl \<Longrightarrow> set w \<subseteq> set (join wl)"
  by (induction wl rule: join.induct) auto

lemma chunkLoop_elements:
  "t \<in> set (chunkLoop words i) \<Longrightarrow> trim t \<noteq> [] \<and> set t \<subseteq> insert 0x20 (\<Union>(set ` set words))"
proof (induction words i rule: chunkLoop.induct)
  case (1 words i)
  show ?case
  proof (cases "i < length words")
    case False
    with "1.prems" show ?thesis by (subst (asm) chunkLoop.simps) simp
  next
    case True
    let ?chunk = "join (slice words i (i + chunkSize words))"
    from "1.prems" True consider "t = ?chunk" "trim ?chunk \<noteq> []"
      | "t \<in> set (chunkLoop words (i + chunkSize words))"
      by (subst (asm) chunkLoop.simps) (auto simp: Let_def split: if_splits)
    then show ?thesis
    proof cases
      case 1
      have "set (slice words i (i + chunkSize words)) \<subseteq> set words"
        unfolding slice_def by (meson set_take_subset set_drop_subset subset_trans)
      with set_join[of "slice words i (i + chunkSize words)"] 1 show ?thesis by auto
    next
      case 2
      from "1.IH"[OF True refl this] show ?thesis .
    qed
  qed
qed

lemma chunkLoop_nonempty:
  "i \<le> k \<Longrightarrow> k < length words \<Longrightarrow> c \<in> set (words ! k) \<Longrightarrow> \<not> isWhiteSpace c \<Longrightarrow> chunkLoop words i \<noteq> []"
proof (induction words i rule: chunkLoop.induct)
  case (1 words i)
  from "1.prems" have True: "i < length words" by simp
  let ?chunk = "join (slice words i (i + chunkSize words))"
  show ?case
  proof (cases "k < i + chunkSize words")
    case True
    have "words ! k \<in> set (slice words i (i + chunkSize words))"
    proof -
      have "k - i < length (take (chunkSize words) (drop i words))" using True "1.prems" by auto
      moreover have "take (chunkSize words) (drop i words) ! (k - i) = words ! k"
        using True "1.prems" by simp
      ultimately show ?thesis unfolding slice_def by (metis add_diff_cancel_left' nth_mem)
    qed
    from join_holds[OF this] "1.prems" have "c \<in> set ?chunk" by auto
    with "1.prems" have "trim ?chunk \<noteq> []" by (auto simp: trim_visible)
    with \<open>i < length words\<close> show ?thesis by (subst chunkLoop.simps) (simp add: Let_def)
  next
    case False
    then have "i + chunkSize words \<le> k" by simp
    from "1.IH"[OF \<open>i < length words\<close> refl this "1.prems"(2,3,4)]
    show ?thesis using \<open>i < length words\<close> by (subst chunkLoop.simps) (simp add: Let_def)
  qed
qed

lemma chunks_elements:
  assumes "t \<in> set (chunks prompt)"
  shows "trim t \<noteq> [] \<and> set t \<subseteq> insert 0x20 (set prompt)"
proof -
  from chunkLoop_elements[OF assms[unfolded chunks_def]]
  have t: "trim t \<noteq> []" and s: "set t \<subseteq> insert 0x20 (\<Union>(set ` set (split spacesRegex prompt)))" by auto
  have "\<Union>(set ` set (split spacesRegex prompt)) \<subseteq> set prompt" using split_subset by fast
  with t s show ?thesis by auto
qed

lemma chunks_nonempty:
  assumes "\<not> isBlank prompt"
  shows "chunks prompt \<noteq> []"
proof -
  from assms obtain c where c: "c \<in> set prompt" "\<not> isWhiteSpace c"
    by (auto simp: isBlank_def list_all_iff)
  from split_spaces_keeps[OF c] obtain word where
    w: "word \<in> set (split spacesRegex prompt)" "c \<in> set word" by blast
  then obtain k where k: "k < length (split spacesRegex prompt)" "split spacesRegex prompt ! k = word"
    by (auto simp: in_set_conv_nth)
  from chunkLoop_nonempty[of 0 k "split spacesRegex prompt" c] k w c
  show ?thesis by (simp add: chunks_def)
qed

section \<open>The candidates of the passes\<close>

lemma set_substring: "set (substring s a b) \<subseteq> set s"
  unfolding substring_def Let_def by (meson set_take_subset set_drop_subset subset_trans)

lemma candidate_trim: "trim s \<noteq> [] \<Longrightarrow> set s \<subseteq> set prompt \<Longrightarrow> candidate prompt (trim s)"
  unfolding candidate_def using set_trim[of s] by auto

lemma separatorStep_inv:
  assumes "\<forall>t \<in> set tasks. candidate prompt t" and "set rest \<subseteq> set prompt"
    and "separatorStep (tasks, rest) r = (tasks', rest')"
  shows "(\<forall>t \<in> set tasks'. candidate prompt t) \<and> set rest' \<subseteq> set prompt"
proof (cases "re_match r rest")
  case None
  with assms show ?thesis by (simp add: separatorStep_def)
next
  case (Some mt)
  let ?b = "trim (substring rest 0 (index mt + 1))"
  have r': "rest' = drop (index mt + length (text0 mt)) rest"
    using assms(3) Some by (simp add: separatorStep_def Let_def)
  have t': "tasks' = tasks \<or> (tasks' = tasks @ [?b] \<and> ?b \<noteq> [])"
    using assms(3) Some by (auto simp: separatorStep_def Let_def split: if_splits)
  have "set (substring rest 0 (index mt + 1)) \<subseteq> set prompt"
    using set_substring[of rest 0 "index mt + 1"] assms(2) by auto
  then have "?b \<noteq> [] \<Longrightarrow> candidate prompt ?b" by (rule candidate_trim[rotated])
  moreover have "set rest' \<subseteq> set prompt" unfolding r' using assms(2) set_drop_subset[of _ rest] by blast
  ultimately show ?thesis using t' assms(1) by auto
qed

lemma separatorFold_inv:
  assumes "\<forall>t \<in> set tasks. candidate prompt t" and "set rest \<subseteq> set prompt"
    and "foldl separatorStep (tasks, rest) rs = (tasks', rest')"
  shows "(\<forall>t \<in> set tasks'. candidate prompt t) \<and> set rest' \<subseteq> set prompt"
  using assms
proof (induction rs arbitrary: tasks rest)
  case Nil
  then show ?case by simp
next
  case (Cons r rs)
  obtain t1 r1 where s: "separatorStep (tasks, rest) r = (t1, r1)" by (cases "separatorStep (tasks, rest) r") auto
  from separatorStep_inv[OF Cons.prems(1,2) s] have "\<forall>t \<in> set t1. candidate prompt t" "set r1 \<subseteq> set prompt" by auto
  from Cons.IH[OF this] Cons.prems(3) s show ?case by simp
qed

lemma separatorPass_inv:
  assumes "separatorPass prompt = (tasks, rest)"
  shows "(\<forall>t \<in> set tasks. candidate prompt t) \<and> set rest \<subseteq> set prompt"
  using separatorFold_inv[of "[]" prompt prompt taskSeparators tasks rest] assms
  by (simp add: separatorPass_def)

lemma phraseStep_inv:
  assumes "\<forall>t \<in> set tasks. candidate prompt t"
  shows "\<forall>t \<in> set (phraseStep prompt tasks mt). candidate prompt t"
proof -
  let ?start = "index mt + length (text0 mt)"
  let ?p = "trim (case indexOf prompt (of_char CHR ''.'') ?start of
                    Some endIndex \<Rightarrow> substring prompt ?start (endIndex + 1)
                  | None \<Rightarrow> drop ?start prompt)"
  have "set (case indexOf prompt (of_char CHR ''.'') ?start of
                    Some endIndex \<Rightarrow> substring prompt ?start (endIndex + 1)
                  | None \<Rightarrow> drop ?start prompt) \<subseteq> set prompt"
    using set_substring[of prompt] by (auto split: option.splits dest: in_set_dropD)
  then have "?p \<noteq> [] \<Longrightarrow> candidate prompt ?p" by (rule candidate_trim[rotated])
  moreover have "phraseStep prompt tasks mt = tasks \<or> (phraseStep prompt tasks mt = tasks @ [?p] \<and> ?p \<noteq> [])"
    by (auto simp: phraseStep_def Let_def)
  ultimately show ?thesis using assms by auto
qed

lemma phraseFold_inv:
  "\<forall>t \<in> set tasks. candidate prompt t \<Longrightarrow> \<forall>t \<in> set (foldl (phraseStep prompt) tasks ms). candidate prompt t"
proof (induction ms arbitrary: tasks)
  case Nil
  then show ?case by simp
next
  case (Cons mt ms)
  from Cons.IH[OF phraseStep_inv[OF Cons.prems]] show ?case by simp
qed

lemma addRemaining_inv:
  assumes "\<forall>t \<in> set tasks. candidate prompt t" and "set rest \<subseteq> set prompt"
  shows "\<forall>t \<in> set (addRemaining tasks rest). candidate prompt t"
  using assms candidate_trim[of rest prompt] by (auto simp: addRemaining_def)

lemma sentences_inv: "t \<in> set (sentences prompt) \<Longrightarrow> candidate prompt t"
proof -
  assume "t \<in> set (sentences prompt)"
  then obtain s where s: "s \<in> set (split sentenceRegex prompt)" "15 < length (trim s)" "t = trim s"
    by (auto simp: sentences_def)
  from split_subset[OF s(1)] s(2) show ?thesis unfolding s(3) by (intro candidate_trim) auto
qed

lemma candidate_ok: "candidate prompt t \<Longrightarrow> trim t \<noteq> [] \<and> set t \<subseteq> insert 0x20 (set prompt)"
  by (auto simp: candidate_def)

text \<open>The candidates that reach the normalisation.\<close>

lemma heuristicTasks_shape:
  "\<exists>ts. heuristicTasks prompt = Some ts
     \<and> (\<forall>t \<in> set ts. trim t \<noteq> [] \<and> set t \<subseteq> insert 0x20 (set prompt))
     \<and> (\<not> isBlank prompt \<longrightarrow> ts \<noteq> [])"
proof -
  obtain tasks rest where sp: "separatorPass prompt = (tasks, rest)" by (cases "separatorPass prompt") auto
  obtain ms where ms: "exec_all taskPhraseRegex [] prompt = Some ms" using phrase_total by blast
  let ?t0 = "addRemaining (foldl (phraseStep prompt) tasks ms) rest"
  let ?t1 = "if length ?t0 \<le> 1 then sentences prompt else ?t0"
  let ?t2 = "if length ?t1 \<le> 1 then chunks prompt else ?t1"
  have h: "heuristicTasks prompt = Some ?t2"
    by (simp add: heuristicTasks_def sp ms Let_def)
  from separatorPass_inv[OF sp] have i: "\<forall>t \<in> set tasks. candidate prompt t" "set rest \<subseteq> set prompt" by auto
  have t0: "\<forall>t \<in> set ?t0. candidate prompt t"
    by (rule addRemaining_inv[OF phraseFold_inv[OF i(1)] i(2)])
  have t1: "\<forall>t \<in> set ?t1. candidate prompt t" using t0 sentences_inv by auto
  have t2: "\<forall>t \<in> set ?t2. trim t \<noteq> [] \<and> set t \<subseteq> insert 0x20 (set prompt)"
    using t1 candidate_ok chunks_elements by (auto split: if_splits)
  have ne: "\<not> isBlank prompt \<longrightarrow> ?t2 \<noteq> []"
    using chunks_nonempty by (auto split: if_splits)
  from h t2 ne show ?thesis by blast
qed

section \<open>Normalisation and bound\<close>

lemma nonBlankLines_visibleLines: "nonBlankLines prompt = visibleLines prompt"
  by (simp add: nonBlankLines_linesOf visibleLines_def trim_eq_Nil)

lemma normalize_candidates:
  assumes "\<forall>t \<in> set ts. trim t \<noteq> []"
  shows "normalize tbl ts = map (\<lambda>t. capitalize tbl (trim t)) ts"
proof -
  have "filter (\<lambda>t. length t > 0) (map trim ts) = map trim ts"
    using assms by (induction ts) auto
  then show ?thesis by (simp add: normalize_def)
qed

lemma finish_candidates:
  assumes "\<forall>t \<in> set ts. trim t \<noteq> []"
  shows "finish tbl prompt ts =
           (if ts = [] then [mkTask prompt]
            else map (\<lambda>t. mkTask (capitalize tbl (trim t))) (take 5 ts))"
  by (simp add: finish_def normalize_candidates[OF assms] maxTasks_def slice_def Let_def take_map)

lemma fallbackBreakdown_lines:
  "2 \<le> length (nonBlankLines prompt) \<Longrightarrow>
     fallbackBreakdown tbl prompt = Some (map (\<lambda>line. mkTask (trim line)) (nonBlankLines prompt))"
  by (simp add: fallbackBreakdown_def)

lemma blank_no_candidates:
  assumes "isBlank prompt" and "\<forall>t \<in> set ts. trim t \<noteq> [] \<and> set t \<subseteq> insert 0x20 (set prompt)"
  shows "ts = []"
proof (rule ccontr)
  assume "ts \<noteq> []"
  then obtain t where t: "t \<in> set ts" by (cases ts) auto
  with assms(2) have "trim t \<noteq> []" "set t \<subseteq> insert 0x20 (set prompt)" by auto
  then obtain c where "c \<in> set t" "\<not> isWhiteSpace c" "c \<in> insert 0x20 (set prompt)"
    by (auto simp: trim_visible)
  with assms(1) show False by (auto simp: isBlank_def list_all_iff)
qed

text \<open>With fewer than two lines: the candidates, trimmed, capitalised, the first five.\<close>

lemma fallbackBreakdown_heuristic:
  assumes "\<not> 2 \<le> length (nonBlankLines prompt)"
  shows "\<exists>ts. (\<forall>t \<in> set ts. trim t \<noteq> []) \<and> (ts = [] \<longleftrightarrow> isBlank prompt)
           \<and> fallbackBreakdown tbl prompt =
               Some (if ts = [] then [mkTask prompt]
                     else map (\<lambda>t. mkTask (capitalize tbl (trim t))) (take 5 ts))"
proof -
  from heuristicTasks_shape[of prompt] obtain ts where
    h: "heuristicTasks prompt = Some ts" and
    e: "\<forall>t \<in> set ts. trim t \<noteq> [] \<and> set t \<subseteq> insert 0x20 (set prompt)" and
    n: "\<not> isBlank prompt \<longrightarrow> ts \<noteq> []" by blast
  from e have e': "\<forall>t \<in> set ts. trim t \<noteq> []" by blast
  have b: "ts = [] \<longleftrightarrow> isBlank prompt" using n blank_no_candidates[OF _ e] by blast
  have "fallbackBreakdown tbl prompt = Some (finish tbl prompt ts)"
    using assms h by (simp add: fallbackBreakdown_pruned fallbackBreakdownPruned_def)
  then have "fallbackBreakdown tbl prompt =
               Some (if ts = [] then [mkTask prompt]
                     else map (\<lambda>t. mkTask (capitalize tbl (trim t))) (take 5 ts))"
    by (simp only: finish_candidates[OF e'])
  with e' b show ?thesis by blast
qed

lemma nonBlankLines_trimmed: "line \<in> set (nonBlankLines prompt) \<Longrightarrow> trim line \<noteq> []"
  by (simp add: nonBlankLines_def)

section \<open>Stable case tables\<close>

lemma toUpperCase_ascii_stable:
  assumes "c < 0x80" and "\<not> isWhiteSpace c"
  shows "toUpperCase tbl c \<noteq> [] \<and> \<not> isWhiteSpace (hd (toUpperCase tbl c))
         \<and> \<not> isWhiteSpace (last (toUpperCase tbl c))
         \<and> toUpperCase tbl (hd (toUpperCase tbl c)) @ tl (toUpperCase tbl c) = toUpperCase tbl c"
  using assms asciiUpper_ascii[OF assms(1)]
  by (simp add: toUpperCase_def isWhiteSpace_asciiUpper asciiUpper_idem)

lemma identityTable_stable: "caseTableStable identityTable"
  unfolding caseTableStable_def
proof (intro allI impI)
  fix c :: code_unit
  assume c: "\<not> isWhiteSpace c"
  show "toUpperCase identityTable c \<noteq> [] \<and> \<not> isWhiteSpace (hd (toUpperCase identityTable c))
         \<and> \<not> isWhiteSpace (last (toUpperCase identityTable c))
         \<and> toUpperCase identityTable (hd (toUpperCase identityTable c)) @ tl (toUpperCase identityTable c)
             = toUpperCase identityTable c"
  proof (cases "c < 0x80")
    case True
    from toUpperCase_ascii_stable[OF True c] show ?thesis .
  next
    case False
    with c show ?thesis by (simp add: toUpperCase_def identityTable_def)
  qed
qed

lemma capitalize_trimmed:
  assumes s: "caseTableStable tbl" and ne: "t \<noteq> []" and tr: "trim t = t"
  shows "capitalize tbl t \<noteq> [] \<and> trim (capitalize tbl t) = capitalize tbl t
         \<and> capitalize tbl (capitalize tbl t) = capitalize tbl t"
proof -
  from ne obtain c cs where t: "t = c # cs" by (cases t) auto
  let ?u = "toUpperCase tbl c"
  have c: "\<not> isWhiteSpace c" using trim_hd[of t] tr t by simp
  from s c have u: "?u \<noteq> []" "\<not> isWhiteSpace (hd ?u)" "\<not> isWhiteSpace (last ?u)"
    "toUpperCase tbl (hd ?u) @ tl ?u = ?u"
    unfolding caseTableStable_def by blast+
  have l: "\<not> isWhiteSpace (last (?u @ cs))"
  proof (cases "cs = []")
    case True
    with u show ?thesis by simp
  next
    case False
    then have "last (?u @ cs) = last (trim t)" using t tr by simp
    with trim_last[of t] tr ne show ?thesis by simp
  qed
  have 1: "trim (?u @ cs) = ?u @ cs"
    using u l by (intro trim_fixed) auto
  obtain x xs where x: "?u = x # xs" using u(1) by (cases ?u) auto
  with u(4) have 2: "capitalize tbl (?u @ cs) = ?u @ cs" by (simp add: capitalize_def)
  from u(1) 1 2 show ?thesis by (simp add: capitalize_def t)
qed

lemma capitalize_trim_stable:
  assumes "caseTableStable tbl"
  shows "capitalize tbl (trim (capitalize tbl (trim t))) = capitalize tbl (trim t)"
proof (cases "trim t = []")
  case True
  then show ?thesis by (simp add: capitalize_def)
next
  case False
  from capitalize_trimmed[OF assms False trim_idem] show ?thesis by simp
qed

section \<open>Blank prompts, searches that find nothing, located matches\<close>

lemma blank_no_lines: "isBlank prompt \<Longrightarrow> nonBlankLines prompt = []"
proof -
  assume b: "isBlank prompt"
  have "\<And>l. l \<in> set (linesOf prompt) \<Longrightarrow> isBlank l"
  proof -
    fix l assume "l \<in> set (linesOf prompt)"
    then have "set l \<subseteq> set (concat (linesOf prompt))" by auto
    then have "set l \<subseteq> set prompt" unfolding concat_linesOf by auto
    with b show "isBlank l" by (auto simp: isBlank_def list_all_iff)
  qed
  then show ?thesis by (auto simp: nonBlankLines_linesOf trim_eq_Nil filter_empty_conv)
qed

lemma capitalize_visible:
  assumes "trim t \<noteq> []" and "\<forall>c. \<not> isWhiteSpace c \<longrightarrow> \<not> isBlank (toUpperCase tbl c)"
  shows "trim (capitalize tbl (trim t)) \<noteq> []"
proof -
  from assms(1) obtain c cs where t: "trim t = c # cs" by (cases "trim t") auto
  have "\<not> isWhiteSpace c" using trim_hd[of t] t by simp
  with assms(2) have "\<not> isBlank (toUpperCase tbl c)" by blast
  then obtain x where "x \<in> set (toUpperCase tbl c)" "\<not> isWhiteSpace x"
    by (auto simp: isBlank_def list_all_iff)
  then show ?thesis by (auto simp: capitalize_def t trim_visible)
qed



lemma stable_visible:
  assumes "caseTableStable tbl" and "\<not> isWhiteSpace c"
  shows "\<not> isBlank (toUpperCase tbl c)"
proof -
  from assms have "toUpperCase tbl c \<noteq> []" "\<not> isWhiteSpace (hd (toUpperCase tbl c))"
    unfolding caseTableStable_def by blast+
  then show ?thesis by (cases "toUpperCase tbl c") (auto simp: isBlank_def)
qed












section \<open>Totality, length and non-empty tasks\<close>

text \<open>
  C1, as stated, fails. The empty prompt and a prompt of three spaces each give one
  descriptor that holds the prompt itself, which is empty after trimming; and six lines
  give six descriptors.
\<close>

theorem empty_prompt_counterexample:
  "fallbackBreakdown identityTable (js '''') = Some [\<lparr>task = js '''', subtasks = None\<rparr>]
   \<and> trim (js '''') = []
   \<and> fallbackBreakdown identityTable (js ''   '') = Some [\<lparr>task = js ''   '', subtasks = None\<rparr>]
   \<and> trim (js ''   '') = []
   \<and> map_option length (fallbackBreakdown identityTable (js ''a\<newline>b\<newline>c\<newline>d\<newline>e\<newline>f'')) = Some 6"
  by code_simp

text \<open>
  C1, amended. For every prompt the function returns, and the list has at least one
  descriptor. With fewer than two non-blank lines it has at most five. A blank prompt
  (empty, or whitespace only) gives the single descriptor that holds the prompt unchanged.
  For any other prompt every task is non-empty after trimming, provided the upper case of
  a visible code unit is never blank. How long the list of two or more lines may be is
  left open here.
\<close>

theorem fallbackBreakdown_total:
  "\<exists>r. fallbackBreakdown tbl prompt = Some r
     \<and> 1 \<le> length r
     \<and> (length (nonBlankLines prompt) < 2 \<longrightarrow> length r \<le> 5)
     \<and> (isBlank prompt \<longrightarrow> r = [\<lparr>task = prompt, subtasks = None\<rparr>])
     \<and> (\<not> isBlank prompt \<and> (\<forall>c. \<not> isWhiteSpace c \<longrightarrow> \<not> isBlank (toUpperCase tbl c))
          \<longrightarrow> (\<forall>d \<in> set r. trim (task d) \<noteq> []))"
proof (cases "2 \<le> length (nonBlankLines prompt)")
  case True
  let ?r = "map (\<lambda>line. mkTask (trim line)) (nonBlankLines prompt)"
  have "fallbackBreakdown tbl prompt = Some ?r" by (rule fallbackBreakdown_lines[OF True])
  moreover have "1 \<le> length ?r" using True by simp
  moreover have "\<not> isBlank prompt" using True blank_no_lines[of prompt] by auto
  moreover have "\<forall>d \<in> set ?r. trim (task d) \<noteq> []"
    using nonBlankLines_trimmed[of _ prompt] by (auto simp: mkTask_def)
  ultimately show ?thesis using True by (intro exI[of _ ?r]) simp
next
  case False
  from fallbackBreakdown_heuristic[OF False, of tbl] obtain ts where
    e: "\<forall>t \<in> set ts. trim t \<noteq> []" and b: "ts = [] \<longleftrightarrow> isBlank prompt" and
    f: "fallbackBreakdown tbl prompt =
          Some (if ts = [] then [mkTask prompt]
                else map (\<lambda>t. mkTask (capitalize tbl (trim t))) (take 5 ts))" by blast
  show ?thesis
  proof (cases "ts = []")
    case True
    with f b show ?thesis by (intro exI[of _ "[mkTask prompt]"]) (simp add: mkTask_def)
  next
    case ne: False
    let ?r = "map (\<lambda>t. mkTask (capitalize tbl (trim t))) (take 5 ts)"
    have 1: "fallbackBreakdown tbl prompt = Some ?r" using f ne by simp
    have 2: "1 \<le> length ?r" using ne by (cases ts) auto
    have 3: "length ?r \<le> 5" by simp
    have 4: "\<not> isBlank prompt" using ne b by simp
    have 5: "(\<forall>c. \<not> isWhiteSpace c \<longrightarrow> \<not> isBlank (toUpperCase tbl c)) \<longrightarrow> (\<forall>d \<in> set ?r. trim (task d) \<noteq> [])"
    proof (intro impI ballI)
      fix d assume v: "\<forall>c. \<not> isWhiteSpace c \<longrightarrow> \<not> isBlank (toUpperCase tbl c)" and "d \<in> set ?r"
      then obtain t where "t \<in> set ts" "d = mkTask (capitalize tbl (trim t))"
        by (auto dest: in_set_takeD)
      with e capitalize_visible[OF _ v, of t] show "trim (task d) \<noteq> []" by (simp add: mkTask_def)
    qed
    from 1 2 3 4 5 show ?thesis by (intro exI[of _ ?r]) blast
  qed
qed

theorem fallbackBreakdown_total_witness:
  "length (nonBlankLines (js ''hi'')) < 2
   \<and> \<not> isBlank (js ''hi'')
   \<and> (case fallbackBreakdown identityTable (js ''hi'') of
          None \<Rightarrow> False
        | Some r \<Rightarrow> 1 \<le> length r \<and> length r \<le> 5 \<and> list_all (\<lambda>d. trim (task d) \<noteq> []) r)
   \<and> isBlank (js '' '')
   \<and> fallbackBreakdown identityTable (js '' '') = Some [\<lparr>task = js '' '', subtasks = None\<rparr>]"
proof -
  have h1: "length (nonBlankLines (js ''hi'')) < 2" by code_simp
  have h2: "\<not> isBlank (js ''hi'')" by code_simp
  have h3: "\<forall>c. \<not> isWhiteSpace c \<longrightarrow> \<not> isBlank (toUpperCase identityTable c)"
    using stable_visible[OF identityTable_stable] by blast
  have h4: "isBlank (js '' '')" by code_simp
  from fallbackBreakdown_total[of identityTable "js ''hi''"] h1 h2 h3
  obtain r where "fallbackBreakdown identityTable (js ''hi'') = Some r" "1 \<le> length r" "length r \<le> 5"
    "\<forall>d \<in> set r. trim (task d) \<noteq> []" by blast
  then have a: "case fallbackBreakdown identityTable (js ''hi'') of
          None \<Rightarrow> False
        | Some r \<Rightarrow> 1 \<le> length r \<and> length r \<le> 5 \<and> list_all (\<lambda>d. trim (task d) \<noteq> []) r"
    by (simp add: list_all_iff)
  from fallbackBreakdown_total[of identityTable "js '' ''"] h4
  have b: "fallbackBreakdown identityTable (js '' '') = Some [\<lparr>task = js '' '', subtasks = None\<rparr>]" by auto
  from h1 h2 a h4 b show ?thesis by blast
qed

section \<open>The bound of five\<close>

text \<open>
  C2, as stated, fails: eight numbered items, one per line, are two or more lines, so the
  line split returns all eight, with their numbers, and nothing cuts them to five.
\<close>

theorem eight_numbered_lines_counterexample:
  "fallbackBreakdown identityTable
     (js ''1. a\<newline>2. b\<newline>3. c\<newline>4. d\<newline>5. e\<newline>6. f\<newline>7. g\<newline>8. h'')
   = Some (map mkTask [js ''1. a'', js ''2. b'', js ''3. c'', js ''4. d'',
                       js ''5. e'', js ''6. f'', js ''7. g'', js ''8. h''])"
  by code_simp

text \<open>
  C2, amended. For every prompt with fewer than two non-blank lines the function returns
  at most five (\<open>maxTasks\<close>) descriptors; for a prompt with two or more non-blank lines it
  returns one descriptor for each of them, however many they are.
\<close>

theorem fallbackBreakdown_bound:
  "\<exists>r. fallbackBreakdown tbl prompt = Some r
     \<and> (length (nonBlankLines prompt) < 2 \<longrightarrow> length r \<le> maxTasks)
     \<and> (2 \<le> length (nonBlankLines prompt) \<longrightarrow> length r = length (nonBlankLines prompt))"
proof (cases "2 \<le> length (nonBlankLines prompt)")
  case True
  from fallbackBreakdown_lines[OF True, of tbl] True show ?thesis by simp
next
  case False
  from fallbackBreakdown_heuristic[OF False, of tbl] obtain ts where
    "fallbackBreakdown tbl prompt =
          Some (if ts = [] then [mkTask prompt]
                else map (\<lambda>t. mkTask (capitalize tbl (trim t))) (take 5 ts))" by blast
  with False show ?thesis by (auto simp: maxTasks_def)
qed

theorem fallbackBreakdown_bound_witness:
  "length (nonBlankLines (js ''hi'')) < 2
   \<and> (case fallbackBreakdown identityTable (js ''hi'') of None \<Rightarrow> False | Some r \<Rightarrow> length r \<le> maxTasks)
   \<and> 2 \<le> length (nonBlankLines (js ''a\<newline>b\<newline>c\<newline>d\<newline>e\<newline>f''))
   \<and> map_option length (fallbackBreakdown identityTable (js ''a\<newline>b\<newline>c\<newline>d\<newline>e\<newline>f'')) = Some 6"
proof -
  have h1: "length (nonBlankLines (js ''hi'')) < 2" by code_simp
  have h2: "length (nonBlankLines (js ''a\<newline>b\<newline>c\<newline>d\<newline>e\<newline>f'')) = 6" by code_simp
  from fallbackBreakdown_bound[of identityTable "js ''hi''"] h1
  have a: "case fallbackBreakdown identityTable (js ''hi'') of None \<Rightarrow> False | Some r \<Rightarrow> length r \<le> maxTasks"
    by auto
  from fallbackBreakdown_bound[of identityTable "js ''a\<newline>b\<newline>c\<newline>d\<newline>e\<newline>f''"] h2
  have b: "map_option length (fallbackBreakdown identityTable (js ''a\<newline>b\<newline>c\<newline>d\<newline>e\<newline>f'')) = Some 6"
    by auto
  from h1 h2 a b show ?thesis by simp
qed

section \<open>Trimmed, non-empty, capitalised\<close>

text \<open>
  C3, as stated, fails: the lines of a prompt of two lines come back trimmed but with
  their first letter as it was.
\<close>

theorem uncapitalised_lines_counterexample:
  "fallbackBreakdown identityTable (js ''buy milk\<newline>walk the dog'')
     = Some [\<lparr>task = js ''buy milk'', subtasks = None\<rparr>, \<lparr>task = js ''walk the dog'', subtasks = None\<rparr>]
   \<and> capitalize identityTable (js ''buy milk'') = js ''Buy milk''
   \<and> capitalize identityTable (js ''walk the dog'') = js ''Walk the dog''"
  by code_simp

text \<open>
  C3, amended. For every prompt the function returns. With two or more non-blank lines
  the tasks are these lines, trimmed and no more (so not capitalised), and every task is
  trimmed and non-empty. With fewer than two and a prompt that is not blank, every task
  is a trimmed, non-empty text with its first code unit replaced by its upper case. For a
  prompt that is not blank and a stable case table, every task is itself trimmed and
  non-empty.
\<close>

theorem fallbackBreakdown_task_shape:
  "\<exists>r. fallbackBreakdown tbl prompt = Some r
     \<and> (2 \<le> length (nonBlankLines prompt) \<longrightarrow>
          map task r = map trim (nonBlankLines prompt)
          \<and> (\<forall>d \<in> set r. task d \<noteq> [] \<and> trim (task d) = task d))
     \<and> (length (nonBlankLines prompt) < 2 \<and> \<not> isBlank prompt \<longrightarrow>
          (\<forall>d \<in> set r. \<exists>t. t \<noteq> [] \<and> trim t = t \<and> task d = capitalize tbl t))
     \<and> (\<not> isBlank prompt \<and> caseTableStable tbl \<longrightarrow>
          (\<forall>d \<in> set r. task d \<noteq> [] \<and> trim (task d) = task d))"
proof (cases "2 \<le> length (nonBlankLines prompt)")
  case True
  let ?r = "map (\<lambda>line. mkTask (trim line)) (nonBlankLines prompt)"
  have "fallbackBreakdown tbl prompt = Some ?r" by (rule fallbackBreakdown_lines[OF True])
  moreover have "\<forall>d \<in> set ?r. task d \<noteq> [] \<and> trim (task d) = task d"
    using nonBlankLines_trimmed[of _ prompt] by (auto simp: mkTask_def)
  moreover have "map task ?r = map trim (nonBlankLines prompt)"
    by (simp add: mkTask_def comp_def)
  ultimately show ?thesis using True by (intro exI[of _ ?r]) simp
next
  case False
  from fallbackBreakdown_heuristic[OF False, of tbl] obtain ts where
    e: "\<forall>t \<in> set ts. trim t \<noteq> []" and b: "ts = [] \<longleftrightarrow> isBlank prompt" and
    f: "fallbackBreakdown tbl prompt =
          Some (if ts = [] then [mkTask prompt]
                else map (\<lambda>t. mkTask (capitalize tbl (trim t))) (take 5 ts))" by blast
  let ?r = "if ts = [] then [mkTask prompt]
                else map (\<lambda>t. mkTask (capitalize tbl (trim t))) (take 5 ts)"
  have 1: "\<not> isBlank prompt \<longrightarrow> (\<forall>d \<in> set ?r. \<exists>t. t \<noteq> [] \<and> trim t = t \<and> task d = capitalize tbl t)"
  proof (intro impI ballI)
    fix d assume "\<not> isBlank prompt" and d: "d \<in> set ?r"
    with b have "ts \<noteq> []" by simp
    with d obtain t where "t \<in> set ts" "d = mkTask (capitalize tbl (trim t))"
      by (auto dest: in_set_takeD)
    with e show "\<exists>t. t \<noteq> [] \<and> trim t = t \<and> task d = capitalize tbl t"
      by (intro exI[of _ "trim t"]) (simp add: mkTask_def)
  qed
  have 2: "\<not> isBlank prompt \<and> caseTableStable tbl \<longrightarrow> (\<forall>d \<in> set ?r. task d \<noteq> [] \<and> trim (task d) = task d)"
  proof (intro impI ballI)
    fix d assume a: "\<not> isBlank prompt \<and> caseTableStable tbl" and d: "d \<in> set ?r"
    with 1 obtain t where "t \<noteq> []" "trim t = t" "task d = capitalize tbl t" by blast
    with capitalize_trimmed[of tbl t] a show "task d \<noteq> [] \<and> trim (task d) = task d" by simp
  qed
  from f False 1 2 show ?thesis by (intro exI[of _ ?r]) simp
qed

theorem fallbackBreakdown_task_shape_witness:
  "2 \<le> length (nonBlankLines (js ''buy milk\<newline>walk the dog''))
   \<and> (case fallbackBreakdown identityTable (js ''buy milk\<newline>walk the dog'') of
          None \<Rightarrow> False
        | Some r \<Rightarrow> map task r = [js ''buy milk'', js ''walk the dog'']
                    \<and> list_all (\<lambda>d. task d \<noteq> [] \<and> trim (task d) = task d) r)
   \<and> length (nonBlankLines (js ''hi'')) < 2
   \<and> \<not> isBlank (js ''hi'')
   \<and> (case fallbackBreakdown identityTable (js ''hi'') of
          None \<Rightarrow> False
        | Some r \<Rightarrow>
            list_all (\<lambda>d. \<exists>t. t \<noteq> [] \<and> trim t = t \<and> task d = capitalize identityTable t) r
            \<and> list_all (\<lambda>d. task d \<noteq> [] \<and> trim (task d) = task d) r)"
proof -
  have h0: "map trim (nonBlankLines (js ''buy milk\<newline>walk the dog'')) = [js ''buy milk'', js ''walk the dog'']"
    by code_simp
  have h1: "2 \<le> length (nonBlankLines (js ''buy milk\<newline>walk the dog''))" by code_simp
  have h2: "length (nonBlankLines (js ''hi'')) < 2" by code_simp
  have h3: "\<not> isBlank (js ''hi'')" by code_simp
  from fallbackBreakdown_task_shape[of identityTable "js ''buy milk\<newline>walk the dog''"] h1
  obtain r0 where "fallbackBreakdown identityTable (js ''buy milk\<newline>walk the dog'') = Some r0"
    "map task r0 = map trim (nonBlankLines (js ''buy milk\<newline>walk the dog''))"
    "\<forall>d \<in> set r0. task d \<noteq> [] \<and> trim (task d) = task d" by blast
  with h0 have a: "case fallbackBreakdown identityTable (js ''buy milk\<newline>walk the dog'') of
          None \<Rightarrow> False
        | Some r \<Rightarrow> map task r = [js ''buy milk'', js ''walk the dog'']
                    \<and> list_all (\<lambda>d. task d \<noteq> [] \<and> trim (task d) = task d) r"
    by (simp add: list_all_iff)
  from fallbackBreakdown_task_shape[of identityTable "js ''hi''"] h2 h3 identityTable_stable
  obtain r where "fallbackBreakdown identityTable (js ''hi'') = Some r"
    "\<forall>d \<in> set r. \<exists>t. t \<noteq> [] \<and> trim t = t \<and> task d = capitalize identityTable t"
    "\<forall>d \<in> set r. task d \<noteq> [] \<and> trim (task d) = task d" by blast
  then have b: "case fallbackBreakdown identityTable (js ''hi'') of
          None \<Rightarrow> False
        | Some r \<Rightarrow>
            list_all (\<lambda>d. \<exists>t. t \<noteq> [] \<and> trim t = t \<and> task d = capitalize identityTable t) r
            \<and> list_all (\<lambda>d. task d \<noteq> [] \<and> trim (task d) = task d) r"
    by (simp add: list_all_iff)
  from h1 h2 h3 a b show ?thesis by blast
qed

section \<open>Lines come first\<close>

text \<open>
  C4. For every prompt with two or more non-blank lines (the pieces between newline
  characters that are not whitespace only) the function returns exactly those lines, each
  trimmed, in their order, whatever bullets, numbers or separator words they hold. The
  prompt of the lines \<open>Buy milk\<close>, \<open>Walk the dog\<close>, \<open>Pay bills\<close> gives these three tasks.
\<close>

theorem lines_first:
  "(2 \<le> length (visibleLines prompt) \<longrightarrow>
      fallbackBreakdown tbl prompt
        = Some (map (\<lambda>line. \<lparr>task = trim line, subtasks = None\<rparr>) (visibleLines prompt)))
   \<and> fallbackBreakdown tbl (js ''Buy milk\<newline>Walk the dog\<newline>Pay bills'')
        = Some [\<lparr>task = js ''Buy milk'', subtasks = None\<rparr>,
                \<lparr>task = js ''Walk the dog'', subtasks = None\<rparr>,
                \<lparr>task = js ''Pay bills'', subtasks = None\<rparr>]"
proof
  show "2 \<le> length (visibleLines prompt) \<longrightarrow>
      fallbackBreakdown tbl prompt
        = Some (map (\<lambda>line. \<lparr>task = trim line, subtasks = None\<rparr>) (visibleLines prompt))"
    using fallbackBreakdown_lines[of prompt tbl]
    by (simp add: nonBlankLines_visibleLines mkTask_def)
  show "fallbackBreakdown tbl (js ''Buy milk\<newline>Walk the dog\<newline>Pay bills'')
        = Some [\<lparr>task = js ''Buy milk'', subtasks = None\<rparr>,
                \<lparr>task = js ''Walk the dog'', subtasks = None\<rparr>,
                \<lparr>task = js ''Pay bills'', subtasks = None\<rparr>]"
    by code_simp
qed

theorem lines_first_witness:
  "visibleLines (js ''Do the project.\<newline>- design the schema\<newline>\<newline>2. write the code\<newline>  Then test it  '')
     = [js ''Do the project.'', js ''- design the schema'', js ''2. write the code'', js ''  Then test it  '']
   \<and> fallbackBreakdown identityTable
        (js ''Do the project.\<newline>- design the schema\<newline>\<newline>2. write the code\<newline>  Then test it  '')
     = Some [\<lparr>task = js ''Do the project.'', subtasks = None\<rparr>,
             \<lparr>task = js ''- design the schema'', subtasks = None\<rparr>,
             \<lparr>task = js ''2. write the code'', subtasks = None\<rparr>,
             \<lparr>task = js ''Then test it'', subtasks = None\<rparr>]"
proof -
  let ?p = "js ''Do the project.\<newline>- design the schema\<newline>\<newline>2. write the code\<newline>  Then test it  ''"
  have v: "visibleLines ?p
     = [js ''Do the project.'', js ''- design the schema'', js ''2. write the code'', js ''  Then test it  '']"
    by code_simp
  then have h: "2 \<le> length (visibleLines ?p)" by simp
  have t: "map (\<lambda>line. \<lparr>task = trim line, subtasks = None\<rparr>)
             [js ''Do the project.'', js ''- design the schema'', js ''2. write the code'', js ''  Then test it  '']
           = [\<lparr>task = js ''Do the project.'', subtasks = None\<rparr>,
             \<lparr>task = js ''- design the schema'', subtasks = None\<rparr>,
             \<lparr>task = js ''2. write the code'', subtasks = None\<rparr>,
             \<lparr>task = js ''Then test it'', subtasks = None\<rparr>]"
    by code_simp
  from lines_first[of ?p identityTable] h
  have "fallbackBreakdown identityTable ?p
          = Some (map (\<lambda>line. \<lparr>task = trim line, subtasks = None\<rparr>) (visibleLines ?p))" by blast
  with v t show ?thesis by simp
qed

section \<open>The remaining text\<close>

text \<open>
  C5. The specification appends the text left after the last separator exactly when its
  trimmed length exceeds 10. The source tests the length before trimming: after the
  separator pass on a prompt that ends in \<open>Then x\<close> and ten spaces, the remaining text is
  \<open>x\<close> and ten spaces, its trimmed length is 1, and it is appended; the function returns
  the task \<open>X\<close>.
\<close>

theorem remainder_untrimmed_length:
  "separatorPass (js ''Do the first thing. Then x          '')
     = ([js ''Do the first thing.''], js ''x          '')
   \<and> length (trim (js ''x          '')) = 1
   \<and> addRemaining [js ''Do the first thing.''] (js ''x          '')
     = [js ''Do the first thing.'', js ''x'']
   \<and> fallbackBreakdown tbl (js ''Do the first thing. Then x          '')
     = Some [\<lparr>task = js ''Do the first thing.'', subtasks = None\<rparr>, \<lparr>task = js ''X'', subtasks = None\<rparr>]"
  by code_simp

section \<open>The prompt \<open>hi\<close>\<close>

text \<open>
  C6. For the prompt \<open>hi\<close> the line split finds one line, the bullet and numbered loops
  find nothing, the separator pass, the phrase loop and the remaining text collect
  nothing, the sentence split keeps nothing, the word split gives the single word \<open>hi\<close>,
  the chunk size is 5, the chunk fallback gives the single chunk \<open>hi\<close>, and the function
  returns the single descriptor \<open>Hi\<close>.
\<close>

theorem fallbackBreakdown_hi:
  "length (nonBlankLines (js ''hi'')) = 1
   \<and> exec_all bulletPointRegex [] (js ''hi'') = Some []
   \<and> exec_all numberedRegex [] (js ''hi'') = Some []
   \<and> separatorPass (js ''hi'') = ([], js ''hi'')
   \<and> exec_all taskPhraseRegex [] (js ''hi'') = Some []
   \<and> addRemaining [] (js ''hi'') = []
   \<and> sentences (js ''hi'') = []
   \<and> split spacesRegex (js ''hi'') = [js ''hi'']
   \<and> chunkSize (split spacesRegex (js ''hi'')) = 5
   \<and> chunks (js ''hi'') = [js ''hi'']
   \<and> heuristicTasks (js ''hi'') = Some [js ''hi'']
   \<and> fallbackBreakdown tbl (js ''hi'') = Some [\<lparr>task = js ''Hi'', subtasks = None\<rparr>]"
  by code_simp

section \<open>Normalising twice\<close>

text \<open>
  C7. Normalisation (trim, then upper-case the first code unit) is idempotent, on one text
  and on a list of tasks, for every stable case table: one under which the upper case of
  a visible unit is not empty, starts and ends with a visible unit, and begins with a unit
  that is its own upper case.
\<close>

theorem normalize_idempotent:
  "caseTableStable tbl \<longrightarrow>
     capitalize tbl (trim (capitalize tbl (trim t))) = capitalize tbl (trim t)
     \<and> normalize tbl (normalize tbl tasks) = normalize tbl tasks"
proof
  assume s: "caseTableStable tbl"
  have 1: "capitalize tbl (trim (capitalize tbl (trim t))) = capitalize tbl (trim t)" for t
    by (rule capitalize_trim_stable[OF s])
  have 2: "length (trim (capitalize tbl (trim t))) > 0" if "length (trim t) > 0" for t
  proof -
    from that have "trim t \<noteq> []" by simp
    from capitalize_visible[OF this] stable_visible[OF s] show ?thesis by auto
  qed
  have "normalize tbl (normalize tbl tasks) = normalize tbl tasks"
  proof (induction tasks)
    case Nil
    show ?case by (simp add: normalize_def)
  next
    case (Cons a tasks)
    then show ?case using 1[of a] 2[of a] by (auto simp: normalize_def)
  qed
  with 1 show "capitalize tbl (trim (capitalize tbl (trim t))) = capitalize tbl (trim t)
     \<and> normalize tbl (normalize tbl tasks) = normalize tbl tasks" by simp
qed

theorem normalize_idempotent_witness:
  "normalize identityTable [js ''  write the code. '', js ''   '', js ''x''] = [js ''Write the code.'', js ''X'']
   \<and> normalize identityTable (normalize identityTable [js ''  write the code. '', js ''   '', js ''x''])
       = [js ''Write the code.'', js ''X'']
   \<and> capitalize identityTable (trim (capitalize identityTable (trim (js ''  write the code. ''))))
       = js ''Write the code.''"
proof -
  have n: "normalize identityTable [js ''  write the code. '', js ''   '', js ''x''] = [js ''Write the code.'', js ''X'']"
    by code_simp
  have c: "capitalize identityTable (trim (js ''  write the code. '')) = js ''Write the code.''"
    by code_simp
  from normalize_idempotent[of identityTable "js ''  write the code. ''" "[js ''  write the code. '', js ''   '', js ''x'']"]
    identityTable_stable
  have "capitalize identityTable (trim (capitalize identityTable (trim (js ''  write the code. ''))))
          = capitalize identityTable (trim (js ''  write the code. ''))"
    and "normalize identityTable (normalize identityTable [js ''  write the code. '', js ''   '', js ''x''])
          = normalize identityTable [js ''  write the code. '', js ''   '', js ''x'']" by blast+
  with n c show ?thesis by simp
qed

section \<open>The list branches are never taken\<close>

text \<open>
  C8. For every prompt both list loops return; when the bullet pattern, or the numbered
  pattern, matches twice or more, the prompt has two or more non-blank lines, so the line
  split has returned already; and the function equals the function without the two
  branches.
\<close>

theorem list_branches_dead:
  "(\<exists>bs ns. exec_all bulletPointRegex [] prompt = Some bs \<and> exec_all numberedRegex [] prompt = Some ns
            \<and> (2 \<le> length bs \<longrightarrow> 2 \<le> length (nonBlankLines prompt))
            \<and> (2 \<le> length ns \<longrightarrow> 2 \<le> length (nonBlankLines prompt)))
   \<and> fallbackBreakdown tbl prompt = fallbackBreakdownPruned tbl prompt"
proof -
  obtain bs where bs: "exec_all bulletPointRegex [] prompt = Some bs" using bullet_total by blast
  obtain ns where ns: "exec_all numberedRegex [] prompt = Some ns" using numbered_total by blast
  from bs ns two_items_two_lines[OF bulletPointRegex_lineItem bs]
    two_items_two_lines[OF numberedRegex_lineItem ns] fallbackBreakdown_pruned[of tbl prompt]
  show ?thesis by blast
qed

theorem list_branches_dead_witness:
  "exec_all bulletPointRegex [] (js ''Plan:\<newline>- design it\<newline>* build it'')
     = Some [\<lparr>index = 5, text0 = js ''\<newline>- design it'', group1 = Some (js ''design it'')\<rparr>,
             \<lparr>index = 17, text0 = js ''\<newline>* build it'', group1 = Some (js ''build it'')\<rparr>]
   \<and> exec_all numberedRegex [] (js ''Plan:\<newline>1. design it\<newline>Step 2: build it'')
     = Some [\<lparr>index = 5, text0 = js ''\<newline>1. design it'', group1 = Some (js ''design it'')\<rparr>,
             \<lparr>index = 18, text0 = js ''\<newline>Step 2: build it'', group1 = Some (js ''build it'')\<rparr>]
   \<and> 2 \<le> length (nonBlankLines (js ''Plan:\<newline>- design it\<newline>* build it''))
   \<and> 2 \<le> length (nonBlankLines (js ''Plan:\<newline>1. design it\<newline>Step 2: build it''))
   \<and> fallbackBreakdown identityTable (js ''Plan:\<newline>- design it\<newline>* build it'')
     = fallbackBreakdownPruned identityTable (js ''Plan:\<newline>- design it\<newline>* build it'')"
proof -
  let ?b = "js ''Plan:\<newline>- design it\<newline>* build it''"
  let ?n = "js ''Plan:\<newline>1. design it\<newline>Step 2: build it''"
  have b: "exec_all bulletPointRegex [] ?b
     = Some [\<lparr>index = 5, text0 = js ''\<newline>- design it'', group1 = Some (js ''design it'')\<rparr>,
             \<lparr>index = 17, text0 = js ''\<newline>* build it'', group1 = Some (js ''build it'')\<rparr>]"
    by code_simp
  have n: "exec_all numberedRegex [] ?n
     = Some [\<lparr>index = 5, text0 = js ''\<newline>1. design it'', group1 = Some (js ''design it'')\<rparr>,
             \<lparr>index = 18, text0 = js ''\<newline>Step 2: build it'', group1 = Some (js ''build it'')\<rparr>]"
    by code_simp
  from list_branches_dead[of ?b identityTable] b
  have 1: "2 \<le> length (nonBlankLines ?b)" by auto
  from list_branches_dead[of ?n identityTable] n
  have 2: "2 \<le> length (nonBlankLines ?n)" by auto
  from list_branches_dead[of ?b identityTable]
  have 3: "fallbackBreakdown identityTable ?b = fallbackBreakdownPruned identityTable ?b" by blast
  from b n 1 2 3 show ?thesis by blast
qed

section \<open>Markers need a period or a newline\<close>



section \<open>Duplicate tasks\<close>

text \<open>
  C10. The result can hold the same task twice. In the prompt below the separator pass
  leaves \<open>pay the bill.\<close> as the remaining text, the phrase loop collects the same text
  after \<open>You must\<close> (it is not among the tasks yet), and the remaining text is then
  appended unchecked.
\<close>

theorem duplicate_tasks:
  "separatorPass (js ''Go. You must pay the bill. Then pay the bill.'')
     = ([js ''Go. You must pay the bill.''], js ''pay the bill.'')
   \<and> map_option (foldl (phraseStep (js ''Go. You must pay the bill. Then pay the bill.''))
                        [js ''Go. You must pay the bill.''])
        (exec_all taskPhraseRegex [] (js ''Go. You must pay the bill. Then pay the bill.''))
     = Some [js ''Go. You must pay the bill.'', js ''pay the bill.'']
   \<and> addRemaining [js ''Go. You must pay the bill.'', js ''pay the bill.''] (js ''pay the bill.'')
     = [js ''Go. You must pay the bill.'', js ''pay the bill.'', js ''pay the bill.'']
   \<and> fallbackBreakdown tbl (js ''Go. You must pay the bill. Then pay the bill.'')
     = Some [\<lparr>task = js ''Go. You must pay the bill.'', subtasks = None\<rparr>,
             \<lparr>task = js ''Pay the bill.'', subtasks = None\<rparr>,
             \<lparr>task = js ''Pay the bill.'', subtasks = None\<rparr>]"
  by code_simp

end
